theory Spec2Isabelle
  imports Main
begin

section \<open>JavaScript strings\<close>

text \<open>
  A JavaScript string is a sequence of UTF-16 code units. A code unit is modelled as a
  natural number (a real one is below \<open>0x10000\<close>); \<open>length\<close>, \<open>slice\<close>, \<open>at\<close>,
  \<open>startsWith\<close>, \<open>endsWith\<close>, \<open>includes\<close> and \<open>split('')\<close> of the source all count
  code units, while \<open>Array.from\<close> and a regular expression with the \<open>u\<close> flag walk code
  points (a surrogate pair is one element).
  ASCII text is written \<open>asc ''...''\<close>; every other character is written as its
  code unit in hexadecimal.
\<close>

type_synonym cu = nat
type_synonym jstring = "cu list"

definition asc :: "string \<Rightarrow> jstring" where
  "asc s = map of_char s"

definition startsWith :: "jstring \<Rightarrow> jstring \<Rightarrow> bool" where
  "startsWith s p = (take (length p) s = p)"

definition endsWith :: "jstring \<Rightarrow> jstring \<Rightarrow> bool" where
  "endsWith s p = (length p \<le> length s \<and> drop (length s - length p) s = p)"

text \<open>\<open>s.includes(t)\<close>: \<open>t\<close> occurs in \<open>s\<close> as a contiguous substring.\<close>

fun str_includes :: "jstring \<Rightarrow> jstring \<Rightarrow> bool" where
  "str_includes [] t = (t = [])"
| "str_includes (c # cs) t = (startsWith (c # cs) t \<or> str_includes cs t)"

text \<open>
  \<open>s.replace(pat, rep)\<close> with a string pattern: the first occurrence only. None of the
  replacement strings of the source contains \<open>$\<close>.
\<close>

fun replace_first :: "jstring \<Rightarrow> jstring \<Rightarrow> jstring \<Rightarrow> jstring" where
  "replace_first [] pat rep = (if pat = [] then rep else [])"
| "replace_first (c # cs) pat rep =
     (if startsWith (c # cs) pat then rep @ drop (length pat) (c # cs)
      else c # replace_first cs pat rep)"

text \<open>Relative indices of \<open>slice\<close> and \<open>at\<close>: a negative index counts from the end.\<close>

definition rel_index :: "int \<Rightarrow> nat \<Rightarrow> nat" where
  "rel_index i len = (if i < 0 then nat (max 0 (int len + i)) else min (nat i) len)"

definition slice :: "'a list \<Rightarrow> int \<Rightarrow> int \<Rightarrow> 'a list" where
  "slice s a b = (let from = rel_index a (length s); to = rel_index b (length s)
                  in take (to - from) (drop from s))"

definition slice_from :: "'a list \<Rightarrow> int \<Rightarrow> 'a list" where
  "slice_from s a = drop (rel_index a (length s)) s"

text \<open>\<open>xs.at(i)\<close> is \<open>undefined\<close> (here \<open>None\<close>) out of range.\<close>

definition at_list :: "'a list \<Rightarrow> int \<Rightarrow> 'a option" where
  "at_list xs i =
     (let k = (if 0 \<le> i then i else int (length xs) + i)
      in if k < 0 \<or> int (length xs) \<le> k then None else Some (xs ! nat k))"

definition at_str :: "jstring \<Rightarrow> int \<Rightarrow> jstring option" where
  "at_str s i = map_option (\<lambda>c. [c]) (at_list s i)"

text \<open>
  An \<open>undefined\<close> passed where a string is expected (\<open>'yY'.includes(undefined)\<close>) is
  converted to the string \<open>"undefined"\<close>.
\<close>

definition toString :: "jstring option \<Rightarrow> jstring" where
  "toString x = (case x of None \<Rightarrow> asc ''undefined'' | Some s \<Rightarrow> s)"

text \<open>
  Calling a method on \<open>undefined\<close> throws a \<open>TypeError\<close>; the source silences the type
  checker with \<open>!\<close> at such places, so each of them is a possible failure of the model.
\<close>

datatype error = TypeError

definition deref :: "'a option \<Rightarrow> error + 'a" where
  "deref x = (case x of None \<Rightarrow> Inl TypeError | Some v \<Rightarrow> Inr v)"

definition bind :: "error + 'a \<Rightarrow> ('a \<Rightarrow> error + 'b) \<Rightarrow> error + 'b" where
  "bind m f = (case m of Inl e \<Rightarrow> Inl e | Inr v \<Rightarrow> f v)"

text \<open>
  \<open>word[word.length - 1] += s\<close>. On an empty array the assignment creates the property
  \<open>"-1"\<close>, which is no element: the array stays empty.
\<close>

definition append_last :: "jstring list \<Rightarrow> jstring \<Rightarrow> jstring list" where
  "append_last ws s = (if ws = [] then [] else butlast ws @ [last ws @ s])"

text \<open>\<open>Array.from(s)\<close>: the code points of \<open>s\<close>, each as a string of one or two units.\<close>

definition isHigh :: "cu \<Rightarrow> bool" where
  "isHigh c = (0xD800 \<le> c \<and> c \<le> 0xDBFF)"

definition isLow :: "cu \<Rightarrow> bool" where
  "isLow c = (0xDC00 \<le> c \<and> c \<le> 0xDFFF)"

fun arrayFrom :: "jstring \<Rightarrow> jstring list" where
  "arrayFrom (c # d # cs) =
     (if isHigh c \<and> isLow d then [c, d] # arrayFrom cs else [c] # arrayFrom (d # cs))"
| "arrayFrom [c] = [[c]]"
| "arrayFrom [] = []"

definition codePoint :: "jstring \<Rightarrow> nat" where
  "codePoint x = (case x of [c, d] \<Rightarrow> 0x10000 + (c - 0xD800) * 0x400 + (d - 0xDC00)
                   | [c] \<Rightarrow> c | _ \<Rightarrow> 0)"

text \<open>
  \<open>s.trim()\<close> removes WhiteSpace and LineTerminator code points (ECMAScript 12.2, 12.3)
  from both ends; all of them are single code units.
\<close>

definition isWhiteSpace :: "cu \<Rightarrow> bool" where
  "isWhiteSpace c = (c \<in> set [0x09, 0x0A, 0x0B, 0x0C, 0x0D, 0x20, 0xA0, 0x1680,
       0x2000, 0x2001, 0x2002, 0x2003, 0x2004, 0x2005, 0x2006, 0x2007, 0x2008, 0x2009,
       0x200A, 0x2028, 0x2029, 0x202F, 0x205F, 0x3000, 0xFEFF])"

definition trim :: "jstring \<Rightarrow> jstring" where
  "trim s = rev (dropWhile isWhiteSpace (rev (dropWhile isWhiteSpace s)))"

text \<open>
  What the JavaScript runtime supplies from the Unicode tables: the predicate behind
  \<open>\p{L}\<close> and \<open>\p{N}\<close> on code points, and \<open>toLowerCase\<close> on strings.
\<close>

record runtime =
  isLetterOrNumber :: "nat \<Rightarrow> bool"
  toLowerCase :: "jstring \<Rightarrow> jstring"

section \<open>The class \<open>Syllabification\<close>\<close>

text \<open>The private fields that the methods read.\<close>

record self =
  this_vowels :: jstring
  this_close :: jstring
  this_ipa :: bool
  this_h :: bool
  this_tl :: bool
  this_hiatus :: bool

subsection \<open>\<open>stressedSyllable\<close>\<close>

definition acutes :: jstring where
  "acutes = [0xE1, 0xE9, 0xED, 0xF3, 0xFA, 0xC1, 0xC9, 0xCD, 0xD3, 0xDA]"

definition hasAcute :: "jstring \<Rightarrow> bool" where
  "hasAcute s = list_ex (\<lambda>k. str_includes acutes [k]) s"

text \<open>The \<open>for\<close> loop over \<open>i\<close>; \<open>None\<close> when it runs to its end.\<close>

fun firstAccented :: "jstring list \<Rightarrow> nat \<Rightarrow> nat option" where
  "firstAccented [] i = None"
| "firstAccented (s # ss) i = (if hasAcute s then Some i else firstAccented ss (Suc i))"

definition stressedSyllable :: "jstring list \<Rightarrow> error + int" where
  "stressedSyllable syllables =
     (if length syllables = 0 then Inr (- 1)
      else if length syllables = 1 then Inr (- 1)
      else if hasAcute (concat syllables) then
        (case firstAccented syllables 0 of
           Some i \<Rightarrow> Inr (int i - int (length syllables))
         | None \<Rightarrow> Inr (- 1))
      else
        bind (deref (at_list syllables (- 1))) (\<lambda>ultima.
          if str_includes (asc ''yY'') (toString (at_str ultima (- 1))) \<and>
             str_includes (asc ''aeiouAEIOU'') (toString (at_str ultima (- 2)))
          then Inr (- 1)
          else if str_includes (asc ''aeiouAEIOUy'') (toString (at_str ultima (- 1)))
          then Inr (- 2)
          else if str_includes (asc ''nsNS'') (toString (at_str ultima (- 1))) \<and>
                  str_includes (asc ''aeiouAEIOU'') (toString (at_str ultima (- 2)))
          then Inr (- 2)
          else Inr (- 1)))"

subsection \<open>Regular expressions\<close>

text \<open>
  The pattern language that \<open>split\<close> uses: character classes, sequence, alternative,
  \<open>?\<close> and \<open>*\<close>. A string matches a pattern when the pattern, derived by each of its
  characters in turn, accepts the empty string.
\<close>

datatype rx = Never | Empty | Class jstring | Seq rx rx | Alt rx rx | Star rx

definition Opt :: "rx \<Rightarrow> rx" where
  "Opt r = Alt r Empty"

fun nullable :: "rx \<Rightarrow> bool" where
  "nullable Never = False"
| "nullable Empty = True"
| "nullable (Class cs) = False"
| "nullable (Seq r1 r2) = (nullable r1 \<and> nullable r2)"
| "nullable (Alt r1 r2) = (nullable r1 \<or> nullable r2)"
| "nullable (Star r) = True"

fun deriv :: "cu \<Rightarrow> rx \<Rightarrow> rx" where
  "deriv c Never = Never"
| "deriv c Empty = Never"
| "deriv c (Class cs) = (if c \<in> set cs then Empty else Never)"
| "deriv c (Seq r1 r2) =
     (if nullable r1 then Alt (Seq (deriv c r1) r2) (deriv c r2) else Seq (deriv c r1) r2)"
| "deriv c (Alt r1 r2) = Alt (deriv c r1) (deriv c r2)"
| "deriv c (Star r) = Seq (deriv c r) (Star r)"

fun matches :: "rx \<Rightarrow> jstring \<Rightarrow> bool" where
  "matches r [] = nullable r"
| "matches r (c # cs) = matches (deriv c r) cs"

text \<open>
  \<open>word.match(/r$/)\<close>: the search tries the start positions from left to right, and a
  match has to reach the end of the word, so the result is the longest suffix of the
  word that matches \<open>r\<close>.
\<close>

fun match_at_end :: "rx \<Rightarrow> jstring \<Rightarrow> jstring option" where
  "match_at_end r [] = (if matches r [] then Some [] else None)"
| "match_at_end r (c # cs) = (if matches r (c # cs) then Some (c # cs) else match_at_end r cs)"

subsection \<open>\<open>split\<close>\<close>

definition hstar :: rx where
  "hstar = Star (Class (asc ''h''))"

definition diphthongPattern :: "self \<Rightarrow> rx" where
  "diphthongPattern this =
     Alt (Seq (Class (asc ''qg''))
           (Seq (Class (asc ''wu'' @ [0xFC]))
             (Alt (Seq (Class (asc ''e'' @ [0xE9])) (Opt (Seq hstar (Class (this_close this)))))
               (Alt (Seq (Class (asc ''i''))
                      (Opt (Seq hstar (Class (asc ''aeo'' @ [0xE1, 0xE9, 0xF3])))))
                    (Class [0xED])))))
      (Alt (Seq (Class (this_close this))
             (Seq (Seq hstar (Class [0x61, 0xE1, 0x6F, 0xF3, 0x65, 0xE9, 0x69]))
                  (Opt (Seq hstar (Class (this_close this))))))
           (Seq (Class [0x61, 0xE1, 0x6F, 0xF3, 0x65, 0xE9, 0x69, 0xED])
                (Seq hstar (Class (this_close this)))))"

definition digraph :: "jstring list" where
  "digraph = [asc ''ll'', asc ''ch'', asc ''rr'']"

text \<open>\<open>diphthongMatch[0].replace(/[gq]/g, '')\<close>\<close>

definition remove_gq :: "jstring \<Rightarrow> jstring" where
  "remove_gq m = filter (\<lambda>c. c \<notin> set (asc ''gq'')) m"

function split :: "self \<Rightarrow> jstring \<Rightarrow> jstring list \<Rightarrow> jstring list" where
  "split this word syllables =
     (case match_at_end (diphthongPattern this) word of
        Some m \<Rightarrow>
          (let diphthong = remove_gq m
           in split this (slice word 0 (- int (length diphthong))) (diphthong # syllables))
      | None \<Rightarrow>
          if list_ex (\<lambda>d. endsWith word d) digraph
          then split this (slice word 0 (- 2)) (slice_from word (- 2) # syllables)
          else if word \<noteq> []
          then split this (slice word 0 (- 1)) (slice_from word (- 1) # syllables)
          else syllables)"
  by pat_completeness auto

lemma diphthongPattern_not_nullable: "\<not> nullable (diphthongPattern this)"
  by (simp add: diphthongPattern_def)

lemma match_at_end_nonempty:
  "match_at_end (diphthongPattern this) word = Some m \<Longrightarrow> word \<noteq> []"
  by (cases word) (simp_all add: diphthongPattern_not_nullable)

lemma slice_neg_shorter: "word \<noteq> [] \<Longrightarrow> length (slice word 0 (- int n)) < length word"
  by (cases word) (auto simp: slice_def rel_index_def Let_def max_def)

lemma endsWith_digraph_nonempty: "list_ex (\<lambda>d. endsWith word d) digraph \<Longrightarrow> word \<noteq> []"
  by (auto simp: digraph_def endsWith_def asc_def)

termination split
proof (relation "measure (\<lambda>(this, word, syllables). length word)")
  show "wf (measure (\<lambda>(this, word, syllables). length word))" by simp
next
  fix this :: self and word :: jstring and syllables :: "jstring list" and m d
  assume "match_at_end (diphthongPattern this) word = Some m" and "d = remove_gq m"
  then show "((this, slice word 0 (- int (length d)), d # syllables), this, word, syllables)
             \<in> measure (\<lambda>(this, word, syllables). length word)"
    using slice_neg_shorter [OF match_at_end_nonempty] by simp
next
  fix this :: self and word :: jstring and syllables :: "jstring list"
  assume "list_ex (\<lambda>d. endsWith word d) digraph"
  then show "((this, slice word 0 (- 2), slice_from word (- 2) # syllables), this, word, syllables)
             \<in> measure (\<lambda>(this, word, syllables). length word)"
    using slice_neg_shorter [OF endsWith_digraph_nonempty, of word 2] by simp
next
  fix this :: self and word :: jstring and syllables :: "jstring list"
  assume "word \<noteq> []"
  then show "((this, slice word 0 (- 1), slice_from word (- 1) # syllables), this, word, syllables)
             \<in> measure (\<lambda>(this, word, syllables). length word)"
    using slice_neg_shorter [of word 1] by simp
qed

text \<open>The equation of \<open>split\<close> is unfolded on demand only.\<close>

declare split.simps [simp del]

subsection \<open>\<open>join\<close>\<close>

definition indivisibleOnset :: "self \<Rightarrow> jstring list" where
  "indivisibleOnset this =
     map asc [''pl'', ''bl'', ''fl'', ''cl'', ''kl'', ''gl'', ''ll'',
              ''pr'', ''br'', ''fr'', ''cr'', ''kr'', ''gr'', ''rr'',
              ''dr'', ''tr'', ''ch'', ''dh'', ''rh'', ''th''] @
     [[0x3B2, 0x6C], [0x263, 0x6C],
      [0x3B2, 0x27E], [0x70, 0x27E], [0x66, 0x27E], [0x6B, 0x27E], [0x67, 0x27E],
      [0x263, 0x27E], [0x64, 0x27E], [0xF0, 0x27E],
      [0x74, 0x27E], [0x62, 0x27E], [0x74, 0x283], asc ''gw'', [0x263, 0x77]] @
     (if this_tl this then [asc ''tl''] else [])"

definition indivisibleCoda :: "jstring list" where
  "indivisibleCoda =
     [asc ''ns'', asc ''bs'', asc ''nz'', [0x3B2, 0x73], asc ''bz'', [0x3B2, 0x7A],
      asc ''nd'', asc ''rt'', asc ''st'', asc ''ff'', asc ''ls'', asc ''lz'', asc ''zz'',
      asc ''ll'', asc ''nt'', asc ''rs'', [0x27E, 0x73], asc ''ch'', asc ''nk'', asc ''nc'',
      asc ''lk'', asc ''sh'', asc ''nt'', asc ''sch'', asc ''mp'', asc ''rd'']"

text \<open>The four pairings of the last two letters of the onset.\<close>

definition sonority_pair :: "jstring \<Rightarrow> bool" where
  "sonority_pair onset =
     ((str_includes (asc ''d'' @ [0xF0] @ asc ''fkt'') (toString (at_str onset (- 1))) \<and>
       str_includes (asc ''b'' @ [0x3B2] @ asc ''c'' @ [0x3B8] @ asc ''kd'' @ [0xF0] @
                     asc ''fg'' @ [0x263] @ asc ''km'' @ [0x271, 0x272, 0xF1] @
                     asc ''pqstvwx'' @ [0x3C7] @ asc ''zjw'')
                    (toString (at_str onset (- 2)))) \<or>
      (str_includes (asc ''g'' @ [0x263]) (toString (at_str onset (- 1))) \<and>
       str_includes (asc ''c'' @ [0x3B8] @ asc ''tkjw'') (toString (at_str onset (- 2)))) \<or>
      (str_includes (asc ''lm'' @ [0x271]) (toString (at_str onset (- 1))) \<and>
       str_includes (asc ''m'' @ [0x271] @ asc ''l'') (toString (at_str onset (- 2)))) \<or>
      (str_includes (asc ''c'' @ [0x3B8]) (toString (at_str onset (- 1))) \<and>
       str_includes (asc ''kc'') (toString (at_str onset (- 2)))))"

text \<open>\<open>Array.from(letter).every(x => !this.vowels.includes(x.toLowerCase()))\<close>\<close>

definition no_vowel :: "runtime \<Rightarrow> self \<Rightarrow> jstring \<Rightarrow> bool" where
  "no_vowel rt this letter =
     list_all (\<lambda>x. \<not> str_includes (this_vowels this) (toLowerCase rt x)) (arrayFrom letter)"

text \<open>
  One round of the \<open>for\<close> loop, on the variables \<open>word\<close>, \<open>onset\<close> and \<open>media\<close>.
  \<open>word.at(-1)!.at(-1)!\<close> is the one place of the loop that calls a method on a value
  that may be \<open>undefined\<close>.
\<close>

fun join_step ::
  "runtime \<Rightarrow> self \<Rightarrow> jstring list \<times> jstring \<times> nat \<Rightarrow> jstring \<Rightarrow>
   error + jstring list \<times> jstring \<times> nat" where
  "join_step rt this (word, onset, media) letter =
     (if letter = asc ''_'' then
        (if length word > 0 then Inr (append_last word onset, [], media)
         else Inr (word, onset, media))
      else if no_vowel rt this letter then
        (if endsWith onset (asc ''y'') then
           bind (if onset = asc ''y'' \<and> length word > 0
                 then bind (deref (at_list word (- 1))) (\<lambda>prev.
                        Inr (str_includes (asc ''AOE'' @ [0xC1, 0xD3, 0xC9] @ asc ''aoe'' @
                                           [0xE1, 0xF3, 0xE9])
                                          (toString (at_str prev (- 1)))))
                 else Inr False)
             (\<lambda>attach. if attach then Inr (append_last word onset, letter, media)
                        else Inr (word @ [onset], letter, media))
         else
           (let onset1 = onset @ letter;
                media1 = (if length word > 0 then length onset1 div 2 else media);
                media2 = (if this_h this \<and> endsWith onset1 (asc ''h'') then 0 else media1)
            in Inr (word, onset1, media2)))
      else if length onset \<le> 1 \<or> length word = 0 then
        Inr (word @ [onset @ letter], [], media)
      else if list_ex (\<lambda>x. endsWith onset x) (indivisibleOnset this) then
        (if length word > 0
         then Inr (append_last word (slice onset 0 (- 2)) @ [slice_from onset (- 2) @ letter],
                   [], media)
         else Inr (word @ [onset @ letter], [], media))
      else if list_ex (\<lambda>x. startsWith onset x) indivisibleCoda \<and> length onset > 2 then
        Inr (append_last word (slice onset 0 2) @ [slice_from onset 2 @ letter], [], media)
      else if sonority_pair onset then
        Inr (append_last word (slice onset 0 (- 1)) @ [slice_from onset (- 1) @ letter],
             [], media)
      else
        Inr (append_last word (slice onset 0 (int media)) @
               [slice_from onset (int media) @ letter], [], media))"

fun join_loop ::
  "runtime \<Rightarrow> self \<Rightarrow> jstring list \<times> jstring \<times> nat \<Rightarrow> jstring list \<Rightarrow>
   error + jstring list \<times> jstring \<times> nat" where
  "join_loop rt this st [] = Inr st"
| "join_loop rt this st (letter # rest) =
     bind (join_step rt this st letter) (\<lambda>st'. join_loop rt this st' rest)"

text \<open>The leftover onset after the loop.\<close>

fun join_finish :: "jstring list \<times> jstring \<times> nat \<Rightarrow> jstring list" where
  "join_finish (word, onset, media) =
     (if onset \<noteq> [] then
        (if length word < 1 then word @ [onset]
         else if endsWith onset (asc ''y'') \<and> length onset = 1 then append_last word onset
         else if endsWith onset (asc ''y'')
         then append_last word (slice onset 0 (- 2)) @ [slice_from onset (- 2)]
         else append_last word onset)
      else word)"

definition join :: "runtime \<Rightarrow> self \<Rightarrow> jstring list \<Rightarrow> error + jstring list" where
  "join rt this segments =
     bind (join_loop rt this ([], [], 0) segments) (\<lambda>st. Inr (join_finish st))"

subsection \<open>\<open>syllabify\<close> (the method)\<close>

text \<open>The field \<open>this.word\<close> has type \<open>string | string[]\<close>.\<close>

datatype word = Str jstring | Syls "jstring list"

definition foreignLig_table :: "(jstring \<times> jstring) list" where
  "foreignLig_table =
     [([0xE0], asc ''a''), ([0xE8], asc ''e''), ([0xEC], asc ''i''),
      ([0xF2], asc ''o''), ([0xF9], asc ''u''),
      ([0xE3], asc ''a''), ([0x1EBD], asc ''e''), ([0x129], asc ''i''),
      ([0xF5], asc ''o''), ([0x169], asc ''u''),
      ([0xFB01], asc ''fi''), ([0xFB02], asc ''fl'')]"

text \<open>\<open>foreignLig[letter] ?? letter\<close>\<close>

definition foreignLig :: "jstring \<Rightarrow> jstring" where
  "foreignLig letter =
     (case map_of foreignLig_table letter of Some v \<Rightarrow> v | None \<Rightarrow> letter)"

text \<open>\<open>word.replace(/[^\p{L}\p{N}_]/gu, '')\<close>\<close>

definition is_word_char :: "runtime \<Rightarrow> jstring \<Rightarrow> bool" where
  "is_word_char rt x = (isLetterOrNumber rt (codePoint x) \<or> x = asc ''_'')"

definition strip_non_word :: "runtime \<Rightarrow> jstring \<Rightarrow> jstring" where
  "strip_non_word rt w = concat (filter (is_word_char rt) (arrayFrom w))"

definition this_syllabify :: "runtime \<Rightarrow> self \<Rightarrow> word \<Rightarrow> error + jstring list" where
  "this_syllabify rt this w =
     (case w of
        Str s \<Rightarrow>
          (let word1 = strip_non_word rt s;
               word2 = concat (map foreignLig (arrayFrom word1))
           in bind (join rt this (split this word2 [])) (\<lambda>syllables. Inr (map trim syllables)))
      | Syls ss \<Rightarrow> Inr ss)"

subsection \<open>\<open>epenthesis\<close>\<close>

definition liquidae :: "jstring list" where
  "liquidae = map asc [''sch'', ''sc'', ''st'', ''sp'', ''sf'', ''sb'', ''sm'', ''sn'']"

definition epenthesis :: "jstring \<Rightarrow> jstring" where
  "epenthesis word =
     (case find (\<lambda>onset. startsWith word onset) liquidae of
        None \<Rightarrow> word
      | Some onset \<Rightarrow>
          if str_includes (asc ''aeiou'' @ [0xE1, 0xE9, 0xED, 0xF3, 0xFA] @ asc ''rl'')
                          (toString (at_str word (int (length onset))))
          then asc ''es_'' @ slice_from onset 1 @ slice_from word (int (length onset))
          else asc ''e'' @ onset @ asc ''_'' @ slice_from word (int (length onset)))"

subsection \<open>\<open>makeExceptions\<close>\<close>

text \<open>
  The module \<open>exceptions-data\<close> with the table \<open>EXCEPTIONS_LIST\<close> is not part of the
  sources at hand, so the table is a parameter: one function per line of the table, the
  substitution \<open>word.replace(new RegExp(pattern, 'gu'), replacement)\<close> of that line.
\<close>

type_synonym exception_rule = "jstring \<Rightarrow> jstring"

definition caparros :: "(jstring \<times> jstring) list" where
  "caparros = [(asc ''fie'', asc ''fi_e''), (asc ''sua'', asc ''su_a''),
               (asc ''rui'', asc ''ru_i'')]"

definition makeExceptions :: "exception_rule list \<Rightarrow> self \<Rightarrow> jstring \<Rightarrow> jstring" where
  "makeExceptions EXCEPTIONS_LIST this word =
     (let word1 =
            (if this_hiatus this \<and> list_ex (\<lambda>x. startsWith word x) (map fst caparros)
             then (let prefix = slice word 0 3
                   in case map_of caparros prefix of
                        Some v \<Rightarrow> replace_first word prefix v
                      | None \<Rightarrow> word)
             else word)
      in fold (\<lambda>rule w. rule w) EXCEPTIONS_LIST word1)"

subsection \<open>\<open>latin\<close>\<close>

definition flexiones :: "jstring list" where
  "flexiones = map asc [''um'', ''em'', ''at'', ''ant'', ''it'', ''unt'', ''am'']"

definition dictionarium :: "(jstring \<times> jstring) list" where
  "dictionarium = [(asc ''a'', [0xE1]), (asc ''e'', [0xE9]), (asc ''i'', [0xED]),
                   (asc ''o'', [0xF3]), (asc ''u'', [0xFA])]"

definition diphthongi :: "(jstring \<times> jstring) list" where
  "diphthongi = [(asc ''ae'', [0xE6]), (asc ''oe'', [0x153])]"

text \<open>
  \<open>\b\<close> of a regular expression without the \<open>u\<close> flag: one side is a character of
  \<open>[A-Za-z0-9_]\<close>, the other is not (or is the end of the string).
\<close>

definition isWordChar :: "cu option \<Rightarrow> bool" where
  "isWordChar x =
     (case x of None \<Rightarrow> False
      | Some c \<Rightarrow> (0x41 \<le> c \<and> c \<le> 0x5A) \<or> (0x61 \<le> c \<and> c \<le> 0x7A) \<or>
                  (0x30 \<le> c \<and> c \<le> 0x39) \<or> c = 0x5F)"

definition wordBoundary :: "cu option \<Rightarrow> cu option \<Rightarrow> bool" where
  "wordBoundary l r = (isWordChar l \<noteq> isWordChar r)"

text \<open>
  \<open>word.replace(new RegExp(`${flexio}\\b`), `_${flexio}`)\<close>: the first place where
  \<open>flexio\<close> stands before a word boundary (\<open>flexio\<close> is never empty).
\<close>

fun replace_flexio :: "jstring \<Rightarrow> jstring \<Rightarrow> jstring" where
  "replace_flexio flexio [] = []"
| "replace_flexio flexio (c # cs) =
     (if startsWith (c # cs) flexio \<and>
         wordBoundary (at_list flexio (- 1)) (at_list (c # cs) (int (length flexio)))
      then asc ''_'' @ flexio @ drop (length flexio) (c # cs)
      else c # replace_flexio flexio cs)"

text \<open>The test that the source applies to the penultimate and to the antepenultimate.\<close>

definition longa :: "jstring \<Rightarrow> bool" where
  "longa syllable =
     (list_ex (\<lambda>dipht. str_includes syllable dipht) (map snd diphthongi) \<or>
      length (filter (\<lambda>x. str_includes syllable x) (map fst dictionarium)) > 1 \<or>
      \<not> list_ex (\<lambda>x. endsWith syllable x) (map fst dictionarium))"

text \<open>The loop over \<open>dictionarium\<close> that stops at the first letter the syllable has.\<close>

definition accent_first :: "jstring \<Rightarrow> jstring" where
  "accent_first syllable =
     (case find (\<lambda>(clavis, pretium). str_includes syllable clavis) dictionarium of
        Some (clavis, pretium) \<Rightarrow> replace_first syllable clavis pretium
      | None \<Rightarrow> syllable)"

definition latin_stress :: "jstring list \<Rightarrow> error + jstring list" where
  "latin_stress syls =
     (if length syls > 1 then
        bind (if length syls = 2 then Inr True
              else if length syls > 1
              then bind (deref (at_list syls (- 2))) (\<lambda>paenultima. Inr (longa paenultima))
              else Inr False)
          (\<lambda>on_penult.
             if on_penult then
               bind (deref (at_list syls (- 2))) (\<lambda>paenultima.
                 Inr (syls[length syls - 2 := accent_first paenultima]))
             else
               bind (deref (at_list syls (- 3))) (\<lambda>antepaenultima.
                 if longa antepaenultima
                 then Inr (syls[length syls - 3 := accent_first antepaenultima])
                 else bind (deref (at_list syls (int (length syls) - 2))) (\<lambda>paenultima.
                        Inr (syls[length syls - 2 :=
                                    replace_first paenultima (asc ''a'') [0xE1]]))))
      else Inr syls)"

text \<open>The condition under which the Latin rules are applied to a string.\<close>

definition latin_applies :: "runtime \<Rightarrow> jstring \<Rightarrow> bool" where
  "latin_applies rt s =
     (let lowerWord = toLowerCase rt s in
      list_ex (\<lambda>x. endsWith lowerWord x) flexiones \<and>
      \<not> list_ex (\<lambda>x. str_includes lowerWord x) [[0xE1], [0xE9], [0xED], [0xF3], [0xFA]])"

text \<open>
  The two loops that rewrite the lower-cased word: the sentinel before the ending, then
  the two ligatures.
\<close>

definition latin_mark :: "runtime \<Rightarrow> jstring \<Rightarrow> jstring" where
  "latin_mark rt s =
     (let lowerWord = toLowerCase rt s;
          word1 = (case find (\<lambda>flexio. endsWith lowerWord flexio) flexiones of
                     Some flexio \<Rightarrow> replace_flexio flexio lowerWord
                   | None \<Rightarrow> lowerWord)
      in fold (\<lambda>(clavis, pretium) x. replace_first x clavis pretium) diphthongi word1)"

definition latin :: "runtime \<Rightarrow> self \<Rightarrow> word \<Rightarrow> error + word" where
  "latin rt this w =
     (case w of
        Syls ss \<Rightarrow> Inr (Syls ss)
      | Str s \<Rightarrow>
          if latin_applies rt s
          then bind (this_syllabify rt this (Str (latin_mark rt s))) (\<lambda>syls.
               bind (latin_stress syls) (\<lambda>marked. Inr (Syls marked)))
          else Inr (Str s))"

subsection \<open>The constructor and the exported functions\<close>

record syllabification =
  syllables :: "jstring list"
  stress :: int

definition base_vowels :: jstring where
  "base_vowels =
     asc ''aeiou'' @ [0xE1, 0xE9, 0xED, 0xF3, 0xFA, 0xE4, 0xEB, 0xEF, 0xF6, 0xFC,
                      0xE0, 0xE8, 0xEC, 0xF2, 0xF9] @
     asc ''AEIOU'' @ [0xC1, 0xC9, 0xCD, 0xD3, 0xDA, 0xC4, 0xCB, 0xCF, 0xD3, 0xDC,
                      0xC0, 0xC8, 0xCC, 0xD2, 0xD9]"

text \<open>
  The parameter \<open>exceptions\<close> has the static type \<open>0 | 1 | 2\<close>, which is erased at run
  time: the constructor receives a number, here an integer.
\<close>

definition new_self :: "int \<Rightarrow> bool \<Rightarrow> bool \<Rightarrow> bool \<Rightarrow> self" where
  "new_self exceptions ipa h tl' =
     \<lparr>this_vowels = base_vowels @ (if ipa then asc ''jw'' else []),
      this_close = asc ''iuIU'' @ (if ipa then asc ''jw'' else []),
      this_ipa = ipa, this_h = h, this_tl = tl',
      this_hiatus = (exceptions > 0 \<and> exceptions > 1)\<rparr>"

definition Syllabification ::
  "runtime \<Rightarrow> exception_rule list \<Rightarrow> jstring \<Rightarrow> int \<Rightarrow> bool \<Rightarrow> bool \<Rightarrow> bool \<Rightarrow> bool \<Rightarrow>
   error + syllabification" where
  "Syllabification rt EXCEPTIONS_LIST word exceptions ipa h epen tl' =
     (let word1 = (if epen then epenthesis word else word);
          this = new_self exceptions ipa h tl'
      in bind (if exceptions > 0
               then latin rt this (Str (makeExceptions EXCEPTIONS_LIST this word1))
               else Inr (Str word1)) (\<lambda>this_word.
         bind (this_syllabify rt this this_word) (\<lambda>syls.
         bind (stressedSyllable syls) (\<lambda>str.
         Inr \<lparr>syllables = syls, stress = str\<rparr>))))"

definition syllabify ::
  "runtime \<Rightarrow> exception_rule list \<Rightarrow> jstring \<Rightarrow> int \<Rightarrow> bool \<Rightarrow> bool \<Rightarrow> bool \<Rightarrow> bool \<Rightarrow>
   error + jstring list" where
  "syllabify rt EXCEPTIONS_LIST word exceptions ipa h epen tl' =
     bind (Syllabification rt EXCEPTIONS_LIST word exceptions ipa h epen tl')
       (\<lambda>r. Inr (syllables r))"

definition tonica ::
  "runtime \<Rightarrow> exception_rule list \<Rightarrow> jstring \<Rightarrow> int \<Rightarrow> bool \<Rightarrow> bool \<Rightarrow> bool \<Rightarrow> bool \<Rightarrow>
   error + int" where
  "tonica rt EXCEPTIONS_LIST word exceptions ipa h epen tl' =
     bind (Syllabification rt EXCEPTIONS_LIST word exceptions ipa h epen tl')
       (\<lambda>r. Inr (stress r))"

subsection \<open>A runtime for the examples\<close>

text \<open>
  The Unicode tables restricted to Basic Latin and Latin-1: the letters and numbers of
  these two blocks, and their lower-case mapping, which is one code unit to one code
  unit there. The examples below use it on words of these blocks only.
\<close>

definition latin1_letter_or_number :: "nat \<Rightarrow> bool" where
  "latin1_letter_or_number c =
     ((0x30 \<le> c \<and> c \<le> 0x39) \<or> (0x41 \<le> c \<and> c \<le> 0x5A) \<or> (0x61 \<le> c \<and> c \<le> 0x7A) \<or>
      c = 0xAA \<or> c = 0xB2 \<or> c = 0xB3 \<or> c = 0xB5 \<or> c = 0xB9 \<or> c = 0xBA \<or>
      (0xBC \<le> c \<and> c \<le> 0xBE) \<or> (0xC0 \<le> c \<and> c \<le> 0xD6) \<or> (0xD8 \<le> c \<and> c \<le> 0xF6) \<or>
      (0xF8 \<le> c \<and> c \<le> 0xFF))"

definition latin1_lower :: "cu \<Rightarrow> cu" where
  "latin1_lower c =
     (if (0x41 \<le> c \<and> c \<le> 0x5A) \<or> (0xC0 \<le> c \<and> c \<le> 0xDE \<and> c \<noteq> 0xD7) then c + 0x20 else c)"

definition latin1 :: runtime where
  "latin1 = \<lparr>isLetterOrNumber = latin1_letter_or_number, toLowerCase = map latin1_lower\<rparr>"

section \<open>Notions of the specification\<close>

text \<open>A syllable ends in one of the letters \<open>cs\<close>; its last letter but one is one of \<open>cs\<close>.\<close>

definition ends_in :: "jstring \<Rightarrow> jstring \<Rightarrow> bool" where
  "ends_in cs s = (s \<noteq> [] \<and> last s \<in> set cs)"

definition penult_in :: "jstring \<Rightarrow> jstring \<Rightarrow> bool" where
  "penult_in cs s = (2 \<le> length s \<and> s ! (length s - 2) \<in> set cs)"

text \<open>
  The default stress rules with ``vowel'' read as the class of vowels of the
  specification (\<open>this.vowels\<close> without the glides) in the second and third rule, and
  as a plain vowel in the first.
\<close>

definition claimed_default_stress :: "jstring list \<Rightarrow> int" where
  "claimed_default_stress syls =
     (if ends_in (asc ''yY'') (last syls) \<and> penult_in (asc ''aeiouAEIOU'') (last syls) then - 1
      else if ends_in (base_vowels @ asc ''y'') (last syls) then - 2
      else if ends_in (asc ''nsNS'') (last syls) \<and> penult_in base_vowels (last syls) then - 2
      else - 1)"

text \<open>The sentinel markers removed from a string.\<close>

definition remove_sentinel :: "jstring \<Rightarrow> jstring" where
  "remove_sentinel s = filter (\<lambda>c. c \<noteq> 0x5F) s"

text \<open>
  The normalized word: non-word characters stripped, foreign letters and ligatures
  folded as \<open>syllabify\<close> does, sentinels removed.
\<close>

definition normalize :: "runtime \<Rightarrow> jstring \<Rightarrow> jstring" where
  "normalize rt s =
     remove_sentinel (concat (map foreignLig (arrayFrom (strip_non_word rt s))))"


text \<open>The acute accent removed from a lower-case vowel.\<close>

definition unacute :: "cu \<Rightarrow> cu" where
  "unacute c =
     (if c = 0xE1 then 0x61 else if c = 0xE9 then 0x65 else if c = 0xED then 0x69
      else if c = 0xF3 then 0x6F else if c = 0xFA then 0x75 else c)"

text \<open>The word after the optional epenthesis and, at a level above 0, the exception
  substitutions.\<close>

definition substituted :: "exception_rule list \<Rightarrow> jstring \<Rightarrow> int \<Rightarrow> bool \<Rightarrow> jstring" where
  "substituted EXCEPTIONS_LIST word exceptions epen =
     (let word1 = (if epen then epenthesis word else word)
      in if exceptions > 0
         then makeExceptions EXCEPTIONS_LIST (new_self exceptions False False False) word1
         else word1)"

text \<open>The Latin rules are applied to the word.\<close>

definition latin_fires ::
  "runtime \<Rightarrow> exception_rule list \<Rightarrow> jstring \<Rightarrow> int \<Rightarrow> bool \<Rightarrow> bool" where
  "latin_fires rt EXCEPTIONS_LIST word exceptions epen =
     (exceptions > 0 \<and> latin_applies rt (substituted EXCEPTIONS_LIST word exceptions epen))"

text \<open>The text that is handed to \<open>split\<close> and \<open>join\<close>.\<close>

definition segmented_text ::
  "runtime \<Rightarrow> exception_rule list \<Rightarrow> jstring \<Rightarrow> int \<Rightarrow> bool \<Rightarrow> jstring" where
  "segmented_text rt EXCEPTIONS_LIST word exceptions epen =
     (if latin_fires rt EXCEPTIONS_LIST word exceptions epen
      then latin_mark rt (substituted EXCEPTIONS_LIST word exceptions epen)
      else substituted EXCEPTIONS_LIST word exceptions epen)"


text \<open>
  The test of the Latin rules in the words of the specification: the syllable contains a
  ligature, or two or more distinct plain vowel letters, or does not end in a plain vowel
  letter.
\<close>

definition long_syllable :: "jstring \<Rightarrow> bool" where
  "long_syllable s =
     ((0xE6 \<in> set s \<or> 0x153 \<in> set s) \<or>
      2 \<le> length (filter (\<lambda>v. v \<in> set s) (asc ''aeiou'')) \<or>
      \<not> (s \<noteq> [] \<and> last s \<in> set (asc ''aeiou'')))"

text \<open>
  The accent on the first letter, in the order \<open>a\<close>, \<open>e\<close>, \<open>i\<close>, \<open>o\<close>, \<open>u\<close> of the table,
  that the syllable contains.
\<close>

definition accent_by_table :: "jstring \<Rightarrow> jstring" where
  "accent_by_table s =
     (if 0x61 \<in> set s then replace_first s [0x61] [0xE1]
      else if 0x65 \<in> set s then replace_first s [0x65] [0xE9]
      else if 0x69 \<in> set s then replace_first s [0x69] [0xED]
      else if 0x6F \<in> set s then replace_first s [0x6F] [0xF3]
      else if 0x75 \<in> set s then replace_first s [0x75] [0xFA]
      else s)"

text \<open>No code point of the string is a letter or a number.\<close>

definition no_letters :: "runtime \<Rightarrow> jstring \<Rightarrow> bool" where
  "no_letters rt w = (\<forall>x\<in>set (arrayFrom w). \<not> isLetterOrNumber rt (codePoint x))"

text \<open>The lower-case letters of ASCII are letters for the runtime.\<close>

definition knows_ascii :: "runtime \<Rightarrow> bool" where
  "knows_ascii rt = (\<forall>c. 0x61 \<le> c \<and> c \<le> 0x7A \<longrightarrow> isLetterOrNumber rt c)"

text \<open>The letters and the numbers of the runtime \<open>latin1\<close>, apart.\<close>

definition latin1_letter :: "nat \<Rightarrow> bool" where
  "latin1_letter c =
     ((0x41 \<le> c \<and> c \<le> 0x5A) \<or> (0x61 \<le> c \<and> c \<le> 0x7A) \<or>
      c = 0xAA \<or> c = 0xB5 \<or> c = 0xBA \<or>
      (0xC0 \<le> c \<and> c \<le> 0xD6) \<or> (0xD8 \<le> c \<and> c \<le> 0xF6) \<or> (0xF8 \<le> c \<and> c \<le> 0xFF))"

definition latin1_number :: "nat \<Rightarrow> bool" where
  "latin1_number c =
     ((0x30 \<le> c \<and> c \<le> 0x39) \<or> c = 0xB2 \<or> c = 0xB3 \<or> c = 0xB9 \<or>
      (0xBC \<le> c \<and> c \<le> 0xBE))"

section \<open>Notions used in the proofs\<close>

text \<open>
  The characters a pattern mentions, and patterns that match nothing at all.
\<close>

fun chars :: "rx \<Rightarrow> cu set" where
  "chars Never = {}"
| "chars Empty = {}"
| "chars (Class cs) = set cs"
| "chars (Seq r1 r2) = chars r1 \<union> chars r2"
| "chars (Alt r1 r2) = chars r1 \<union> chars r2"
| "chars (Star r) = chars r"

fun void :: "rx \<Rightarrow> bool" where
  "void Never = True"
| "void Empty = False"
| "void (Class cs) = False"
| "void (Seq r1 r2) = (void r1 \<or> void r2)"
| "void (Alt r1 r2) = (void r1 \<and> void r2)"
| "void (Star r) = False"

text \<open>
  The constructor sets \<open>this.close\<close> to \<open>iuIU\<close> or \<open>iuIUjw\<close>; the facts about \<open>split\<close>
  need no more than this.
\<close>

definition close_ok :: "self \<Rightarrow> bool" where
  "close_ok this = (set (this_close this) \<subseteq> set (asc ''iuIUjw''))"

text \<open>Every character of the diphthong pattern, but \<open>q\<close> and \<open>g\<close>.\<close>

definition pattern_tail_chars :: "cu set" where
  "pattern_tail_chars = set (asc ''wuehiaoIUj'' @ [0xFC, 0xE9, 0xE1, 0xF3, 0xED])"


text \<open>A segment is the sentinel alone, or is not empty and has no sentinel in it.\<close>

definition segment_ok :: "jstring \<Rightarrow> bool" where
  "segment_ok s = (s = asc ''_'' \<or> (s \<noteq> [] \<and> 0x5F \<notin> set s))"

text \<open>The segments that are not the sentinel.\<close>

definition real_segments :: "jstring list \<Rightarrow> jstring list" where
  "real_segments segs = filter (\<lambda>l. l \<noteq> asc ''_'') segs"

section \<open>Basic facts\<close>

lemma bind_Inr [simp]: "bind (Inr v) f = f v"
  by (simp add: bind_def)

lemma bind_Inl [simp]: "bind (Inl e) f = Inl e"
  by (simp add: bind_def)

lemma bind_eq_Inr: "bind m f = Inr r \<longleftrightarrow> (\<exists>v. m = Inr v \<and> f v = Inr r)"
  by (cases m) simp_all

lemma deref_Some [simp]: "deref (Some v) = Inr v"
  by (simp add: deref_def)

lemma at_list_last: "xs \<noteq> [] \<Longrightarrow> at_list xs (- 1) = Some (last xs)"
  by (cases xs rule: rev_cases) (simp_all add: at_list_def)

lemma at_list_neg:
  "0 < n \<Longrightarrow> n \<le> length xs \<Longrightarrow> at_list xs (- int n) = Some (xs ! (length xs - n))"
  by (simp add: at_list_def nat_diff_distrib' of_nat_diff)

lemma at_list_neg_none: "length xs < n \<Longrightarrow> at_list xs (- int n) = None"
  by (simp add: at_list_def)

lemma str_includes_single: "str_includes s [c] \<longleftrightarrow> c \<in> set s"
  by (induction s) (auto simp: startsWith_def)

section \<open>Patterns, \<open>split\<close> and \<open>join\<close>\<close>

lemma void_not_nullable: "void r \<Longrightarrow> \<not> nullable r"
  by (induction r) auto

lemma void_deriv: "void r \<Longrightarrow> void (deriv c r)"
  by (induction r) (auto simp: void_not_nullable)

lemma void_no_match: "void r \<Longrightarrow> \<not> matches r s"
  by (induction s arbitrary: r) (auto simp: void_not_nullable void_deriv)

lemma deriv_foreign: "c \<notin> chars r \<Longrightarrow> void (deriv c r)"
  by (induction r) auto

lemma chars_deriv: "chars (deriv c r) \<subseteq> chars r"
  by (induction r) auto

lemma matches_chars: "matches r s \<Longrightarrow> set s \<subseteq> chars r"
proof (induction s arbitrary: r)
  case Nil
  then show ?case by simp
next
  case (Cons c cs)
  from Cons.prems have m: "matches (deriv c r) cs" by simp
  then have "c \<in> chars r"
    using deriv_foreign void_no_match by blast
  moreover from Cons.IH [OF m] chars_deriv have "set cs \<subseteq> chars r" by blast
  ultimately show ?case by simp
qed

lemma matches_Alt: "matches (Alt r1 r2) s \<longleftrightarrow> matches r1 s \<or> matches r2 s"
  by (induction s arbitrary: r1 r2) simp_all

lemma matches_Seq_Empty: "matches (Seq Empty r) s \<longleftrightarrow> matches r s"
  by (cases s) (simp_all add: matches_Alt void_no_match)

lemma matches_Class_Seq:
  "matches (Seq (Class cs) r) s \<longleftrightarrow> (\<exists>c s'. s = c # s' \<and> c \<in> set cs \<and> matches r s')"
  by (cases s) (simp_all add: matches_Seq_Empty void_no_match)

lemma matches_nonempty_chars:
  assumes "matches r s" and "\<not> nullable r" and "chars r \<subseteq> C"
  shows "s \<noteq> [] \<and> set s \<subseteq> C"
proof
  show "s \<noteq> []"
  proof
    assume "s = []"
    with assms(1) have "nullable r" by simp
    with assms(2) show False ..
  qed
  from matches_chars [OF assms(1)] assms(3) show "set s \<subseteq> C" by (rule subset_trans)
qed

lemma diphthong_shape:
  assumes "close_ok this" and "matches (diphthongPattern this) m"
  shows "\<exists>c rest. m = c # rest \<and> rest \<noteq> [] \<and> set rest \<subseteq> pattern_tail_chars \<and>
           (c \<in> set (asc ''qg'') \<or> c \<in> pattern_tail_chars)"
proof -
  let ?A = "Seq (Class (asc ''wu'' @ [0xFC]))
             (Alt (Seq (Class (asc ''e'' @ [0xE9])) (Opt (Seq hstar (Class (this_close this)))))
               (Alt (Seq (Class (asc ''i''))
                      (Opt (Seq hstar (Class (asc ''aeo'' @ [0xE1, 0xE9, 0xF3])))))
                    (Class [0xED])))"
  let ?B = "Seq (Seq hstar (Class [0x61, 0xE1, 0x6F, 0xF3, 0x65, 0xE9, 0x69]))
                  (Opt (Seq hstar (Class (this_close this))))"
  let ?C = "Seq hstar (Class (this_close this))"
  from assms(1) have cl: "set (this_close this) \<subseteq> pattern_tail_chars"
    by (auto simp: close_ok_def pattern_tail_chars_def asc_def)
  have chA: "chars ?A \<subseteq> pattern_tail_chars"
    using cl by (auto simp: Opt_def hstar_def pattern_tail_chars_def asc_def)
  have chB: "chars ?B \<subseteq> pattern_tail_chars"
    using cl by (auto simp: Opt_def hstar_def pattern_tail_chars_def asc_def)
  have chC: "chars ?C \<subseteq> pattern_tail_chars"
    using cl by (auto simp: Opt_def hstar_def pattern_tail_chars_def asc_def)
  have nA: "\<not> nullable ?A" and nB: "\<not> nullable ?B" and nC: "\<not> nullable ?C"
    by (simp_all add: hstar_def)
  have vow: "set [0x61, 0xE1, 0x6F, 0xF3, 0x65, 0xE9, 0x69, 0xED] \<subseteq> pattern_tail_chars"
    by (simp add: pattern_tail_chars_def asc_def)
  have "matches (Seq (Class (asc ''qg'')) ?A) m \<or>
        matches (Seq (Class (this_close this)) ?B) m \<or>
        matches (Seq (Class [0x61, 0xE1, 0x6F, 0xF3, 0x65, 0xE9, 0x69, 0xED]) ?C) m"
    using assms(2) by (simp only: diphthongPattern_def matches_Alt)
  then show ?thesis
  proof (elim disjE)
    assume "matches (Seq (Class (asc ''qg'')) ?A) m"
    then obtain c s' where a: "m = c # s'" "c \<in> set (asc ''qg'')" "matches ?A s'"
      unfolding matches_Class_Seq [of "asc ''qg''" ?A m] by blast
    from matches_nonempty_chars [OF a(3) nA chA] a(1,2) show ?thesis by blast
  next
    assume "matches (Seq (Class (this_close this)) ?B) m"
    then obtain c s' where b: "m = c # s'" "c \<in> set (this_close this)" "matches ?B s'"
      unfolding matches_Class_Seq [of "this_close this" ?B m] by blast
    from matches_nonempty_chars [OF b(3) nB chB] b(1,2) cl show ?thesis by blast
  next
    assume "matches (Seq (Class [0x61, 0xE1, 0x6F, 0xF3, 0x65, 0xE9, 0x69, 0xED]) ?C) m"
    then obtain c s' where c: "m = c # s'"
        "c \<in> set [0x61, 0xE1, 0x6F, 0xF3, 0x65, 0xE9, 0x69, 0xED]" "matches ?C s'"
      unfolding matches_Class_Seq [of "[0x61, 0xE1, 0x6F, 0xF3, 0x65, 0xE9, 0x69, 0xED]" ?C m]
      by blast
    from matches_nonempty_chars [OF c(3) nC chC] c(1,2) vow show ?thesis by blast
  qed
qed

lemma match_at_end_suffix:
  "match_at_end r w = Some m \<Longrightarrow> matches r m \<and> (\<exists>pre. w = pre @ m)"
proof (induction w)
  case Nil
  then show ?case by (simp split: if_splits)
next
  case (Cons c cs)
  show ?case
  proof (cases "matches r (c # cs)")
    case True
    with Cons.prems show ?thesis by auto
  next
    case False
    with Cons.prems have "match_at_end r cs = Some m" by simp
    from Cons.IH [OF this] obtain pre where "matches r m" "cs = pre @ m" by blast
    then have "c # cs = (c # pre) @ m" by simp
    with \<open>matches r m\<close> show ?thesis by blast
  qed
qed

lemma rel_index_neg: "0 < n \<Longrightarrow> rel_index (- int n) len = len - n"
  by (auto simp: rel_index_def max_def nat_diff_distrib')

lemma rel_index_nat: "rel_index (int n) len = min n len"
  by (simp add: rel_index_def)

lemma remove_gq_id: "set s \<subseteq> pattern_tail_chars \<Longrightarrow> remove_gq s = s"
  by (auto simp: remove_gq_def pattern_tail_chars_def asc_def filter_id_conv)

lemma slice_zero_from: "slice s 0 i @ slice_from s i = s"
  by (simp add: slice_def slice_from_def rel_index_def Let_def)

lemma slice_neg_suffix: "d \<noteq> [] \<Longrightarrow> slice (pre @ d) 0 (- int (length d)) = pre"
  by (simp add: slice_def rel_index_def Let_def)

lemma slice_from_neg_suffix: "d \<noteq> [] \<Longrightarrow> slice_from (pre @ d) (- int (length d)) = d"
  by (simp add: slice_from_def rel_index_def Let_def)

text \<open>What the diphthong branch of split cuts off: a non-empty suffix without sentinel.\<close>

lemma diphthong_cut:
  assumes "close_ok this" and "match_at_end (diphthongPattern this) w = Some m"
  shows "remove_gq m \<noteq> [] \<and> 0x5F \<notin> set (remove_gq m) \<and>
         slice w 0 (- int (length (remove_gq m))) @ remove_gq m = w"
proof -
  from match_at_end_suffix [OF assms(2)] obtain pre
    where mm: "matches (diphthongPattern this) m" and w: "w = pre @ m" by blast
  from diphthong_shape [OF assms(1) mm] obtain c rest
    where m: "m = c # rest" and ne: "rest \<noteq> []" and sub: "set rest \<subseteq> pattern_tail_chars"
      and c: "c \<in> set (asc ''qg'') \<or> c \<in> pattern_tail_chars" by blast
  have us: "0x5F \<notin> pattern_tail_chars"
    by (simp add: pattern_tail_chars_def asc_def)
  from c show ?thesis
  proof
    assume "c \<in> set (asc ''qg'')"
    then have d: "remove_gq m = rest"
      using remove_gq_id [OF sub] by (auto simp: m remove_gq_def asc_def)
    have "w = (pre @ [c]) @ rest" by (simp add: w m)
    with slice_neg_suffix [OF ne, of "pre @ [c]"] have "slice w 0 (- int (length rest)) @ rest = w"
      by simp
    with d ne sub us show ?thesis by auto
  next
    assume "c \<in> pattern_tail_chars"
    with sub have sm: "set m \<subseteq> pattern_tail_chars" by (simp add: m)
    then have d: "remove_gq m = m" by (rule remove_gq_id)
    have "m \<noteq> []" by (simp add: m)
    from slice_neg_suffix [OF this, of pre] have "slice w 0 (- int (length m)) @ m = w"
      by (simp add: w)
    with d sm us m show ?thesis by auto
  qed
qed

lemma digraph_cut:
  assumes "list_ex (\<lambda>d. endsWith w d) digraph"
  shows "slice_from w (- 2) \<in> set digraph"
proof -
  from assms obtain d where d: "d \<in> set digraph" "endsWith w d"
    by (auto simp: list_ex_iff)
  then have l: "length d = 2" by (auto simp: digraph_def asc_def)
  with d(2) rel_index_neg [of 2 "length w"] have "slice_from w (- 2) = d"
    by (auto simp: endsWith_def slice_from_def)
  with d(1) show ?thesis by simp
qed

lemma slice_from_last: "w \<noteq> [] \<Longrightarrow> slice_from w (- 1) = [last w]"
  by (cases w rule: rev_cases) (simp_all add: slice_from_def rel_index_def)

lemma split_concat:
  "close_ok this \<Longrightarrow> concat (split this w acc) = w @ concat acc"
proof (induction this w acc rule: split.induct)
  case (1 this word syllables)
  show ?case
  proof (cases "match_at_end (diphthongPattern this) word")
    case (Some m)
    from diphthong_cut [OF "1.prems" Some]
    have cut: "slice word 0 (- int (length (remove_gq m))) @ remove_gq m = word" by simp
    have "concat (split this word syllables) =
          concat (split this (slice word 0 (- int (length (remove_gq m)))) (remove_gq m # syllables))"
      by (subst split.simps) (simp add: Some Let_def)
    also have "\<dots> = slice word 0 (- int (length (remove_gq m))) @ concat (remove_gq m # syllables)"
      using "1.IH"(3) [OF Some refl "1.prems"] .
    also have "\<dots> = word @ concat syllables" using cut by (metis append.assoc concat.simps(2))
    finally show ?thesis .
  next
    case None
    show ?thesis
    proof (cases "list_ex (\<lambda>d. endsWith word d) digraph")
      case True
      have "concat (split this word syllables) =
            concat (split this (slice word 0 (- 2)) (slice_from word (- 2) # syllables))"
        by (subst split.simps) (simp add: None True)
      also have "\<dots> = slice word 0 (- 2) @ concat (slice_from word (- 2) # syllables)"
        using "1.IH"(1) [OF None True "1.prems"] .
      also have "\<dots> = word @ concat syllables"
        using slice_zero_from [of word "- 2"] by (metis append.assoc concat.simps(2))
      finally show ?thesis .
    next
      case False
      show ?thesis
      proof (cases "word = []")
        case True
        then show ?thesis using None False by (subst split.simps) simp
      next
        case ne: False
        have "concat (split this word syllables) =
              concat (split this (slice word 0 (- 1)) (slice_from word (- 1) # syllables))"
          by (subst split.simps) (simp add: None False ne)
        also have "\<dots> = slice word 0 (- 1) @ concat (slice_from word (- 1) # syllables)"
          using "1.IH"(2) [OF None False ne "1.prems"] .
        also have "\<dots> = word @ concat syllables"
          using slice_zero_from [of word "- 1"] by (metis append.assoc concat.simps(2))
        finally show ?thesis .
      qed
    qed
  qed
qed


lemma split_segments:
  "close_ok this \<Longrightarrow> list_all segment_ok acc \<Longrightarrow> list_all segment_ok (split this w acc)"
proof (induction this w acc rule: split.induct)
  case (1 this word syllables)
  show ?case
  proof (cases "match_at_end (diphthongPattern this) word")
    case (Some m)
    from diphthong_cut [OF "1.prems"(1) Some] have "segment_ok (remove_gq m)"
      by (simp add: segment_ok_def)
    with "1.prems"(2) have "list_all segment_ok (remove_gq m # syllables)" by simp
    from "1.IH"(3) [OF Some refl "1.prems"(1) this] show ?thesis
      by (subst split.simps) (simp add: Some Let_def)
  next
    case None
    show ?thesis
    proof (cases "list_ex (\<lambda>d. endsWith word d) digraph")
      case True
      from digraph_cut [OF True] have "segment_ok (slice_from word (- 2))"
        by (auto simp: segment_ok_def digraph_def asc_def)
      with "1.prems"(2) have "list_all segment_ok (slice_from word (- 2) # syllables)" by simp
      from "1.IH"(1) [OF None True "1.prems"(1) this] show ?thesis
        by (subst split.simps) (simp add: None True)
    next
      case False
      show ?thesis
      proof (cases "word = []")
        case True
        then show ?thesis using None False "1.prems"(2) by (subst split.simps) simp
      next
        case ne: False
        have "segment_ok (slice_from word (- 1))"
          by (simp add: slice_from_last [OF ne] segment_ok_def asc_def)
        with "1.prems"(2) have "list_all segment_ok (slice_from word (- 1) # syllables)" by simp
        from "1.IH"(2) [OF None False ne "1.prems"(1) this] show ?thesis
          by (subst split.simps) (simp add: None False ne)
      qed
    qed
  qed
qed

lemma concat_append_last: "ws \<noteq> [] \<Longrightarrow> concat (append_last ws s) = concat ws @ s"
  by (cases ws rule: rev_cases) (simp_all add: append_last_def)

lemma length_append_last: "length (append_last ws s) = length ws"
  by (simp add: append_last_def)

lemma join_step_total: "\<exists>st'. join_step rt this st letter = Inr st'"
proof (cases st)
  case (fields word onset media)
  show ?thesis
  proof (cases "word = []")
    case True
    then show ?thesis by (simp add: fields Let_def)
  next
    case False
    then show ?thesis by (simp add: fields Let_def at_list_last)
  qed
qed

lemma join_step_concat:
  assumes "join_step rt this (word, onset, media) letter = Inr (word', onset', media')"
  shows "concat word' @ onset' =
         concat word @ onset @ (if letter = asc ''_'' then [] else letter)"
proof (cases "word = []")
  case True
  with assms show ?thesis
    by (auto simp: Let_def split: if_splits)
next
  case False
  have sl: "\<And>i. concat word @ slice onset 0 i @ slice_from onset i @ letter
              = concat word @ onset @ letter"
    using slice_zero_from [of onset] by (metis append.assoc)
  from False assms show ?thesis
    by (auto simp: Let_def at_list_last concat_append_last sl split: if_splits)
qed

lemma join_loop_total: "\<exists>st'. join_loop rt this st segs = Inr st'"
proof (induction segs arbitrary: st)
  case Nil
  have "join_loop rt this st [] = Inr st" by simp
  then show ?case ..
next
  case (Cons letter rest)
  from join_step_total obtain st1 where s: "join_step rt this st letter = Inr st1" by blast
  from Cons.IH obtain st2 where "join_loop rt this st1 rest = Inr st2" by blast
  with s have "join_loop rt this st (letter # rest) = Inr st2" by simp
  then show ?case ..
qed

lemma join_loop_concat:
  "join_loop rt this (word, onset, media) segs = Inr (word', onset', media') \<Longrightarrow>
   concat word' @ onset' = concat word @ onset @ concat (real_segments segs)"
proof (induction segs arbitrary: word onset media)
  case Nil
  then show ?case by (simp add: real_segments_def)
next
  case (Cons letter rest)
  from Cons.prems obtain w1 o1 m1
    where s: "join_step rt this (word, onset, media) letter = Inr (w1, o1, m1)"
      and l: "join_loop rt this (w1, o1, m1) rest = Inr (word', onset', media')"
    by (auto simp: bind_eq_Inr)
  from Cons.IH [OF l] join_step_concat [OF s] show ?case
    by (simp add: real_segments_def)
qed

lemma join_finish_concat: "concat (join_finish (word, onset, media)) = concat word @ onset"
proof (cases "word = []")
  case True
  then show ?thesis by simp
next
  case False
  then show ?thesis
    using slice_zero_from [of onset "- 2"] by (simp add: concat_append_last)
qed

lemma join_total: "\<exists>syls. join rt this segs = Inr syls"
  using join_loop_total [of rt this "([], [], 0)" segs] by (auto simp: join_def)

lemma join_concat:
  assumes "join rt this segs = Inr syls"
  shows "concat syls = concat (real_segments segs)"
proof -
  from assms obtain st where l: "join_loop rt this ([], [], 0) segs = Inr st"
    and f: "syls = join_finish st"
    by (auto simp: join_def bind_eq_Inr)
  obtain w' o' m' where st: "st = (w', o', m')" by (cases st)
  from join_loop_concat [OF l [unfolded st]] f st join_finish_concat [of w' o' m']
  show ?thesis by simp
qed

section \<open>The method \<open>syllabify\<close>\<close>

lemma real_segments_concat:
  "list_all segment_ok segs \<Longrightarrow> concat (real_segments segs) = remove_sentinel (concat segs)"
proof (induction segs)
  case Nil
  show ?case by (simp add: real_segments_def remove_sentinel_def)
next
  case (Cons s segs)
  then have ih: "concat (real_segments segs) = remove_sentinel (concat segs)" by simp
  show ?case
  proof (cases "s = asc ''_''")
    case True
    with ih show ?thesis by (simp add: real_segments_def remove_sentinel_def asc_def)
  next
    case False
    with Cons.prems have "0x5F \<notin> set s" by (simp add: segment_ok_def)
    then have "filter (\<lambda>c. c \<noteq> 0x5F) s = s" by (auto simp: filter_id_conv)
    with ih False show ?thesis by (simp add: real_segments_def remove_sentinel_def)
  qed
qed

lemma set_trim: "set (trim s) \<subseteq> set s"
  by (auto simp: trim_def dest!: set_dropWhileD)



lemma concat_arrayFrom: "concat (arrayFrom w) = w"
  by (induction w rule: arrayFrom.induct) simp_all






lemma foreignLig_cases:
  "foreignLig x = x \<or> foreignLig x \<in> set (map asc [''a'', ''e'', ''i'', ''o'', ''u'', ''fi'', ''fl''])"
proof (cases "map_of foreignLig_table x")
  case None
  then show ?thesis by (simp add: foreignLig_def)
next
  case (Some v)
  from map_of_SomeD [OF this] have "v \<in> snd ` set foreignLig_table" by force
  then have "v \<in> set (map asc [''a'', ''e'', ''i'', ''o'', ''u'', ''fi'', ''fl''])"
    unfolding foreignLig_table_def by auto
  with Some show ?thesis by (simp add: foreignLig_def)
qed

lemma foreignLig_chars: "set (foreignLig x) \<subseteq> set x \<union> set (asc ''aeioufl'')"
  using foreignLig_cases [of x] by (auto simp: asc_def)

lemma arrayFrom_subset: "x \<in> set (arrayFrom w) \<Longrightarrow> set x \<subseteq> set w"
proof -
  assume "x \<in> set (arrayFrom w)"
  then have "set x \<subseteq> set (concat (arrayFrom w))" by auto
  then show ?thesis by (simp add: concat_arrayFrom)
qed



lemma foreignLig_sentinel: "0x5F \<in> set (foreignLig x) \<Longrightarrow> 0x5F \<in> set x"
  using foreignLig_chars [of x] by (auto simp: asc_def)

text \<open>The method on a string.\<close>

lemma this_syllabify_total: "\<exists>syls. this_syllabify rt this w = Inr syls"
proof (cases w)
  case (Str s)
  obtain syls where "join rt this (split this
      (concat (map foreignLig (arrayFrom (strip_non_word rt s)))) []) = Inr syls"
    using join_total by blast
  then show ?thesis by (simp add: this_syllabify_def Str Let_def)
next
  case (Syls ss)
  then show ?thesis by (simp add: this_syllabify_def)
qed

lemma this_syllabify_untrimmed:
  assumes "close_ok this" and "this_syllabify rt this (Str s) = Inr syls"
  shows "\<exists>raw. syls = map trim raw \<and>
           concat raw = remove_sentinel (concat (map foreignLig (arrayFrom (strip_non_word rt s))))"
proof -
  let ?w2 = "concat (map foreignLig (arrayFrom (strip_non_word rt s)))"
  from assms(2) obtain raw where j: "join rt this (split this ?w2 []) = Inr raw"
    and t: "syls = map trim raw"
    by (auto simp: this_syllabify_def Let_def bind_eq_Inr)
  have "list_all segment_ok (split this ?w2 [])"
    using split_segments [OF assms(1), of "[]"] by simp
  from real_segments_concat [OF this] join_concat [OF j] split_concat [OF assms(1), of ?w2 "[]"]
  have "concat raw = remove_sentinel ?w2" by simp
  with t show ?thesis by blast
qed

lemma this_syllabify_no_sentinel:
  assumes "close_ok this" and "this_syllabify rt this (Str s) = Inr syls"
  shows "list_all (\<lambda>x. 0x5F \<notin> set x) syls"
proof -
  from this_syllabify_untrimmed [OF assms] obtain raw where t: "syls = map trim raw"
    and c: "concat raw = remove_sentinel (concat (map foreignLig (arrayFrom (strip_non_word rt s))))"
    by blast
  have "0x5F \<notin> set (concat raw)" unfolding c by (simp add: remove_sentinel_def)
  then have "\<forall>x\<in>set raw. 0x5F \<notin> set x" by auto
  with set_trim have "\<forall>x\<in>set raw. 0x5F \<notin> set (trim x)" by blast
  with t show ?thesis by (simp add: list_all_iff)
qed


section \<open>The Latin accent\<close>

lemma at_list_nat: "i < length xs \<Longrightarrow> at_list xs (int i) = Some (xs ! i)"
  by (simp add: at_list_def)


lemma set_replace_first: "set (replace_first s p r) \<subseteq> set s \<union> set r"
proof (induction s)
  case Nil
  show ?case by auto
next
  case (Cons c cs)
  have "set (drop (length p) (c # cs)) \<subseteq> set (c # cs)" by (rule set_drop_subset)
  with Cons show ?case by auto
qed

lemma latin_stress_eq:
  "latin_stress syls =
     Inr (if length syls \<le> 1 then syls
          else if length syls = 2 \<or> longa (syls ! (length syls - 2))
          then syls[length syls - 2 := accent_first (syls ! (length syls - 2))]
          else if longa (syls ! (length syls - 3))
          then syls[length syls - 3 := accent_first (syls ! (length syls - 3))]
          else syls[length syls - 2 :=
                      replace_first (syls ! (length syls - 2)) (asc ''a'') [0xE1]])"
proof (cases "length syls \<le> 1")
  case True
  then show ?thesis by (simp add: latin_stress_def)
next
  case False
  then have p: "at_list syls (- 2) = Some (syls ! (length syls - 2))"
    using at_list_neg [of 2 syls] by simp
  from False have p': "at_list syls (int (length syls) - 2) = Some (syls ! (length syls - 2))"
    using at_list_nat [of "length syls - 2" syls] by (simp add: of_nat_diff)
  show ?thesis
  proof (cases "length syls = 2")
    case True
    then show ?thesis by (simp add: latin_stress_def p)
  next
    case ne: False
    with False have a: "at_list syls (- 3) = Some (syls ! (length syls - 3))"
      using at_list_neg [of 3 syls] by simp
    from False ne show ?thesis
      by (simp add: latin_stress_def p p' a)
  qed
qed

lemma accent_first_cases:
  "accent_first s = s \<or> (\<exists>c p. (c, p) \<in> set dictionarium \<and> accent_first s = replace_first s c p)"
proof (cases "find (\<lambda>(clavis, pretium). str_includes s clavis) dictionarium")
  case None
  then show ?thesis by (simp add: accent_first_def)
next
  case (Some cp)
  obtain c p where cp: "cp = (c, p)" by (cases cp)
  from Some obtain i where "i < length dictionarium" "dictionarium ! i = cp"
    unfolding find_Some_iff by blast
  then have "cp \<in> set dictionarium" using nth_mem by force
  with Some cp show ?thesis by (auto simp: accent_first_def)
qed

text \<open>Either nothing changes, or one syllable has one letter replaced by its accented form.\<close>

lemma latin_stress_shape:
  assumes "latin_stress syls = Inr marked"
  shows "marked = syls \<or>
         (\<exists>i c p. i < length syls \<and> (c, p) \<in> set dictionarium \<and>
                  marked = syls[i := replace_first (syls ! i) c p])"
proof -
  have a: "(asc ''a'', [0xE1]) \<in> set dictionarium" by (simp add: dictionarium_def)
  have upd: "\<And>i. i < length syls \<Longrightarrow>
      syls[i := accent_first (syls ! i)] = syls \<or>
      (\<exists>c p. (c, p) \<in> set dictionarium \<and>
             syls[i := accent_first (syls ! i)] = syls[i := replace_first (syls ! i) c p])"
  proof -
    fix i assume "i < length syls"
    from accent_first_cases [of "syls ! i"] show
      "syls[i := accent_first (syls ! i)] = syls \<or>
       (\<exists>c p. (c, p) \<in> set dictionarium \<and>
              syls[i := accent_first (syls ! i)] = syls[i := replace_first (syls ! i) c p])"
    proof
      assume "accent_first (syls ! i) = syls ! i"
      then show ?thesis by simp
    next
      assume "\<exists>c p. (c, p) \<in> set dictionarium \<and> accent_first (syls ! i) = replace_first (syls ! i) c p"
      then obtain c p where "(c, p) \<in> set dictionarium"
        "accent_first (syls ! i) = replace_first (syls ! i) c p" by blast
      then have "(c, p) \<in> set dictionarium \<and>
        syls[i := accent_first (syls ! i)] = syls[i := replace_first (syls ! i) c p]" by simp
      then show ?thesis by blast
    qed
  qed
  consider (short) "length syls \<le> 1"
    | (pen) "1 < length syls" "length syls = 2 \<or> longa (syls ! (length syls - 2))"
    | (ante) "2 < length syls" "\<not> longa (syls ! (length syls - 2))" "longa (syls ! (length syls - 3))"
    | (other) "2 < length syls" "\<not> longa (syls ! (length syls - 2))" "\<not> longa (syls ! (length syls - 3))"
    by linarith
  then show ?thesis
  proof cases
    case short
    with assms show ?thesis by (simp add: latin_stress_eq)
  next
    case pen
    with assms have "marked = syls[length syls - 2 := accent_first (syls ! (length syls - 2))]"
      by (auto simp: latin_stress_eq)
    moreover from pen(1) have "length syls - 2 < length syls" by simp
    ultimately show ?thesis using upd [of "length syls - 2"] by blast
  next
    case ante
    with assms have "marked = syls[length syls - 3 := accent_first (syls ! (length syls - 3))]"
      by (auto simp: latin_stress_eq)
    moreover from ante(1) have "length syls - 3 < length syls" by simp
    ultimately show ?thesis using upd [of "length syls - 3"] by blast
  next
    case other
    with assms have "marked = syls[length syls - 2 :=
        replace_first (syls ! (length syls - 2)) (asc ''a'') [0xE1]]"
      by (auto simp: latin_stress_eq)
    moreover from other(1) have "length syls - 2 < length syls" by simp
    ultimately show ?thesis using a by blast
  qed
qed

lemma dictionarium_shape:
  "(c, p) \<in> set dictionarium \<Longrightarrow>
   \<exists>a b. c = [a] \<and> p = [b] \<and> unacute a = unacute b \<and> b \<noteq> 0x5F"
proof -
  assume "(c, p) \<in> set dictionarium"
  then consider "c = [0x61] \<and> p = [0xE1]" | "c = [0x65] \<and> p = [0xE9]"
    | "c = [0x69] \<and> p = [0xED]" | "c = [0x6F] \<and> p = [0xF3]" | "c = [0x75] \<and> p = [0xFA]"
    by (auto simp: dictionarium_def asc_def)
  then show ?thesis by cases (simp_all add: unacute_def)
qed


lemma latin_stress_no_sentinel:
  assumes "latin_stress syls = Inr marked" and "list_all (\<lambda>x. 0x5F \<notin> set x) syls"
  shows "list_all (\<lambda>x. 0x5F \<notin> set x) marked"
proof -
  from latin_stress_shape [OF assms(1)] show ?thesis
  proof
    assume "marked = syls"
    with assms(2) show ?thesis by simp
  next
    assume "\<exists>i c p. i < length syls \<and> (c, p) \<in> set dictionarium \<and>
                  marked = syls[i := replace_first (syls ! i) c p]"
    then obtain i c p where i: "i < length syls" and cp: "(c, p) \<in> set dictionarium"
      and m: "marked = syls[i := replace_first (syls ! i) c p]" by blast
    from dictionarium_shape [OF cp] have "0x5F \<notin> set p" by auto
    moreover from assms(2) i have "0x5F \<notin> set (syls ! i)" by (simp add: list_all_length)
    ultimately have "0x5F \<notin> set (replace_first (syls ! i) c p)"
      using set_replace_first [of "syls ! i" c p] by blast
    with assms(2) show ?thesis
      unfolding m list_all_iff by (auto dest!: set_update_subset_insert [THEN subsetD])
  qed
qed

lemma latin_stress_length: "latin_stress syls = Inr marked \<Longrightarrow> length marked = length syls"
  by (auto simp: latin_stress_eq split: if_splits)

section \<open>The stress rules\<close>

lemma undefined_not_included:
  "\<not> str_includes (asc ''yY'') (asc ''undefined'')"
  "\<not> str_includes (asc ''aeiouAEIOU'') (asc ''undefined'')"
  "\<not> str_includes (asc ''aeiouAEIOUy'') (asc ''undefined'')"
  "\<not> str_includes (asc ''nsNS'') (asc ''undefined'')"
  by (simp_all add: asc_def startsWith_def)

lemma includes_at_last:
  "\<not> str_includes cs (asc ''undefined'') \<Longrightarrow>
   str_includes cs (toString (at_str s (- 1))) = ends_in cs s"
  by (cases s rule: rev_cases)
     (simp_all add: at_str_def at_list_def toString_def ends_in_def str_includes_single)

lemma includes_at_penult:
  "\<not> str_includes cs (asc ''undefined'') \<Longrightarrow>
   str_includes cs (toString (at_str s (- 2))) = penult_in cs s"
  using at_list_neg [of 2 s] at_list_neg_none [of s 2]
  by (cases "2 \<le> length s")
     (simp_all add: at_str_def toString_def penult_in_def str_includes_single)

lemma hasAcute_iff: "hasAcute s \<longleftrightarrow> (\<exists>c\<in>set s. c \<in> set acutes)"
  by (simp add: hasAcute_def list_ex_iff str_includes_single)

lemma firstAccented_bounds:
  "firstAccented ss k = Some i \<Longrightarrow> k \<le> i \<and> i < k + length ss"
  by (induction ss arbitrary: k) (fastforce split: if_splits)+

lemma stressedSyllable_short: "length syls \<le> 1 \<Longrightarrow> stressedSyllable syls = Inr (- 1)"
  by (cases syls) (simp_all add: stressedSyllable_def)

lemma stressedSyllable_long:
  assumes "2 \<le> length syls"
  shows "stressedSyllable syls =
     (if hasAcute (concat syls) then
        (case firstAccented syls 0 of
           Some i \<Rightarrow> Inr (int i - int (length syls))
         | None \<Rightarrow> Inr (- 1))
      else if str_includes (asc ''yY'') (toString (at_str (last syls) (- 1))) \<and>
              str_includes (asc ''aeiouAEIOU'') (toString (at_str (last syls) (- 2)))
      then Inr (- 1)
      else if str_includes (asc ''aeiouAEIOUy'') (toString (at_str (last syls) (- 1)))
      then Inr (- 2)
      else if str_includes (asc ''nsNS'') (toString (at_str (last syls) (- 1))) \<and>
              str_includes (asc ''aeiouAEIOU'') (toString (at_str (last syls) (- 2)))
      then Inr (- 2)
      else Inr (- 1))"
proof -
  from assms have a: "length syls \<noteq> 0" "length syls \<noteq> 1" and ne: "syls \<noteq> []"
    by auto
  show ?thesis
    unfolding stressedSyllable_def
    by (simp only: a if_False at_list_last [OF ne] deref_Some bind_Inr)
qed

lemma stressedSyllable_total: "\<exists>s. stressedSyllable syls = Inr s"
proof (cases "length syls \<le> 1")
  case True
  then show ?thesis by (simp add: stressedSyllable_short)
next
  case False
  then show ?thesis by (simp add: stressedSyllable_long split: option.splits)
qed

lemma stressedSyllable_range:
  assumes "stressedSyllable syls = Inr s"
  shows "- int (max 1 (length syls)) \<le> s \<and> s \<le> - 1 \<and> (length syls \<le> 1 \<longrightarrow> s = - 1)"
proof (cases "length syls \<le> 1")
  case True
  with assms stressedSyllable_short [of syls] show ?thesis by simp
next
  case False
  then have len: "2 \<le> length syls" by simp
  show ?thesis
  proof (cases "firstAccented syls 0")
    case None
    with assms len show ?thesis
      by (auto simp: stressedSyllable_long split: if_splits)
  next
    case (Some i)
    with firstAccented_bounds [of syls 0 i] assms len show ?thesis
      by (auto simp: stressedSyllable_long split: if_splits)
  qed
qed

text \<open>
  C6, amended. A list of at least two syllables, none with an acute accent (\<open>acutes\<close>,
  either case): the stress is \<open>-1\<close> if the last syllable ends in \<open>y\<close> or \<open>Y\<close> after one
  of the plain vowels \<open>aeiouAEIOU\<close>; otherwise \<open>-2\<close> if it ends in a plain vowel or in
  lower-case \<open>y\<close>; otherwise \<open>-2\<close> if it ends in \<open>n\<close> or \<open>s\<close> (either case) after a plain
  vowel; otherwise \<open>-1\<close>. The first rule that applies decides. A vowel with a dieresis
  or a grave accent is not a plain vowel.
\<close>

theorem stress_default_rules:
  assumes "2 \<le> length syls" and "\<forall>s\<in>set syls. \<forall>c\<in>set s. c \<notin> set acutes"
  shows "stressedSyllable syls =
     Inr (if ends_in (asc ''yY'') (last syls) \<and> penult_in (asc ''aeiouAEIOU'') (last syls)
          then - 1
          else if ends_in (asc ''aeiouAEIOUy'') (last syls) then - 2
          else if ends_in (asc ''nsNS'') (last syls) \<and>
                  penult_in (asc ''aeiouAEIOU'') (last syls)
          then - 2
          else - 1)"
proof -
  from assms(2) have "\<not> hasAcute (concat syls)"
    by (auto simp: hasAcute_iff)
  with assms(1) show ?thesis
    by (simp add: stressedSyllable_long includes_at_last includes_at_penult
          undefined_not_included)
qed

text \<open>The syllables \<open>ca\<close>, \<open>sa\<close>: the last one ends in a plain vowel, the stress is \<open>-2\<close>.\<close>

theorem stress_default_rules_witness:
  "2 \<le> length [asc ''ca'', asc ''sa''] \<and>
   \<not> hasAcute (concat [asc ''ca'', asc ''sa'']) \<and>
   stressedSyllable [asc ''ca'', asc ''sa''] = Inr (- 2)"
proof -
  have a: "2 \<le> length [asc ''ca'', asc ''sa'']" by simp
  have b: "\<forall>s\<in>set [asc ''ca'', asc ''sa'']. \<forall>c\<in>set s. c \<notin> set acutes"
    by (simp add: asc_def acutes_def)
  show ?thesis
    using a b stress_default_rules [OF a b]
    by (simp add: ends_in_def penult_in_def asc_def hasAcute_iff)
qed

text \<open>
  The word \<open>men\<close>\<open>u\<close>-dieresis: two syllables, no acute accent, the last one ends in a
  vowel of \<open>this.vowels\<close>, and the stress is \<open>-1\<close>, not \<open>-2\<close>.
\<close>

theorem stress_default_rules_counterexample:
  "2 \<le> length [asc ''me'', asc ''n'' @ [0xFC]] \<and>
   \<not> hasAcute (concat [asc ''me'', asc ''n'' @ [0xFC]]) \<and>
   stressedSyllable [asc ''me'', asc ''n'' @ [0xFC]] = Inr (- 1) \<and>
   claimed_default_stress [asc ''me'', asc ''n'' @ [0xFC]] = - 2"
  by (simp add: stressedSyllable_long hasAcute_iff acutes_def asc_def claimed_default_stress_def
        ends_in_def penult_in_def base_vowels_def at_str_def at_list_def toString_def
        startsWith_def)

section \<open>The constructor and the exported functions\<close>

lemma bind_assoc: "bind (bind m f) g = bind m (\<lambda>x. bind (f x) g)"
  by (cases m) simp_all

lemma bind_return: "bind m Inr = m"
  by (cases m) simp_all

lemma close_ok_new_self: "close_ok (new_self e ipa h tl')"
  by (auto simp: close_ok_def new_self_def asc_def)

lemma makeExceptions_self:
  "makeExceptions EXC (new_self e ipa h tl') w = makeExceptions EXC (new_self e False False False) w"
  by (simp add: makeExceptions_def new_self_def)

lemma this_syllabify_Syls: "this_syllabify rt this (Syls ss) = Inr ss"
  by (simp add: this_syllabify_def)

text \<open>The constructor as a pipeline: segment the prepared text, accent it when the Latin
  rules apply, locate the stress.\<close>

lemma Syllabification_eq:
  "Syllabification rt EXC word e ipa h epen tl' =
     bind (bind (this_syllabify rt (new_self e ipa h tl') (Str (segmented_text rt EXC word e epen)))
                (\<lambda>syls. if latin_fires rt EXC word e epen then latin_stress syls else Inr syls))
          (\<lambda>syls. bind (stressedSyllable syls) (\<lambda>str. Inr \<lparr>syllables = syls, stress = str\<rparr>))"
proof (cases "e > 0")
  case False
  then show ?thesis
    by (simp add: Syllabification_def segmented_text_def latin_fires_def substituted_def Let_def
          bind_return)
next
  case True
  let ?this = "new_self e ipa h tl'"
  let ?W = "substituted EXC word e epen"
  have W: "makeExceptions EXC ?this (if epen then epenthesis word else word) = ?W"
    using True by (simp add: substituted_def Let_def makeExceptions_self [of EXC e ipa h tl'])
  show ?thesis
  proof (cases "latin_applies rt ?W")
    case False
    with True show ?thesis
      unfolding Syllabification_def Let_def W
      by (simp add: segmented_text_def latin_fires_def latin_def bind_return)
  next
    case fires: True
    with True show ?thesis
      unfolding Syllabification_def Let_def W
      by (simp add: segmented_text_def latin_fires_def latin_def bind_assoc this_syllabify_Syls)
  qed
qed

lemma latin_stress_total: "\<exists>marked. latin_stress syls = Inr marked"
  by (simp add: latin_stress_eq)

text \<open>What every construction yields.\<close>

lemma Syllabification_yields:
  "\<exists>raw syls s.
     this_syllabify rt (new_self e ipa h tl') (Str (segmented_text rt EXC word e epen)) = Inr raw \<and>
     (if latin_fires rt EXC word e epen then latin_stress raw = Inr syls else syls = raw) \<and>
     stressedSyllable syls = Inr s \<and>
     Syllabification rt EXC word e ipa h epen tl' = Inr \<lparr>syllables = syls, stress = s\<rparr>"
proof -
  obtain raw where raw:
    "this_syllabify rt (new_self e ipa h tl') (Str (segmented_text rt EXC word e epen)) = Inr raw"
    using this_syllabify_total by blast
  obtain syls where syls:
    "(if latin_fires rt EXC word e epen then latin_stress raw else Inr raw) = Inr syls"
    using latin_stress_total [of raw] by (cases "latin_fires rt EXC word e epen") auto
  obtain s where s: "stressedSyllable syls = Inr s"
    using stressedSyllable_total by blast
  have "Syllabification rt EXC word e ipa h epen tl' = Inr \<lparr>syllables = syls, stress = s\<rparr>"
    unfolding Syllabification_eq by (simp add: raw syls s)
  moreover from syls
  have "if latin_fires rt EXC word e epen then latin_stress raw = Inr syls else syls = raw"
    by (simp split: if_splits)
  ultimately show ?thesis using raw s by blast
qed


text \<open>
  C2, amended. For every word and configuration the stress index is at most \<open>-1\<close>; with
  \<open>N \<ge> 1\<close> syllables it is at least \<open>-N\<close>; with \<open>N \<le> 1\<close> syllables it is \<open>-1\<close>.
\<close>

theorem stress_index_range:
  "\<exists>syls s. syllabify rt EXCEPTIONS_LIST word exceptions ipa h epen tl' = Inr syls \<and>
            tonica rt EXCEPTIONS_LIST word exceptions ipa h epen tl' = Inr s \<and>
            (1 \<le> length syls \<longrightarrow> - int (length syls) \<le> s \<and> s \<le> - 1) \<and>
            (length syls \<le> 1 \<longrightarrow> s = - 1)"
proof -
  from Syllabification_yields [of rt exceptions ipa h tl' EXCEPTIONS_LIST word epen]
  obtain syls s where s: "stressedSyllable syls = Inr s"
    and r: "Syllabification rt EXCEPTIONS_LIST word exceptions ipa h epen tl' =
            Inr \<lparr>syllables = syls, stress = s\<rparr>"
    by blast
  from stressedSyllable_range [OF s]
  have "(1 \<le> length syls \<longrightarrow> - int (length syls) \<le> s \<and> s \<le> - 1) \<and> (length syls \<le> 1 \<longrightarrow> s = - 1)"
    by auto
  with r show ?thesis by (simp add: syllabify_def tonica_def)
qed

text \<open>
  C10. For every word and configuration, no syllable that \<open>syllabify\<close> returns contains
  the sentinel \<open>_\<close> (code unit \<open>0x5F\<close>).
\<close>

theorem no_sentinel_in_output:
  "\<exists>syls. syllabify rt EXCEPTIONS_LIST word exceptions ipa h epen tl' = Inr syls \<and>
          list_all (\<lambda>s. 0x5F \<notin> set s) syls"
proof -
  from Syllabification_yields [of rt exceptions ipa h tl' EXCEPTIONS_LIST word epen]
  obtain raw syls s where raw:
      "this_syllabify rt (new_self exceptions ipa h tl')
         (Str (segmented_text rt EXCEPTIONS_LIST word exceptions epen)) = Inr raw"
    and syls: "if latin_fires rt EXCEPTIONS_LIST word exceptions epen
               then latin_stress raw = Inr syls else syls = raw"
    and r: "Syllabification rt EXCEPTIONS_LIST word exceptions ipa h epen tl' =
            Inr \<lparr>syllables = syls, stress = s\<rparr>"
    by blast
  from this_syllabify_no_sentinel [OF close_ok_new_self raw]
  have a: "list_all (\<lambda>x. 0x5F \<notin> set x) raw" .
  have "list_all (\<lambda>x. 0x5F \<notin> set x) syls"
  proof (cases "latin_fires rt EXCEPTIONS_LIST word exceptions epen")
    case True
    with syls have "latin_stress raw = Inr syls" by simp
    from latin_stress_no_sentinel [OF this a] show ?thesis .
  next
    case False
    with syls a show ?thesis by simp
  qed
  with r show ?thesis by (simp add: syllabify_def)
qed

section \<open>The concatenation of the syllables\<close>

lemmas eval_defs =
  syllabify_def tonica_def Syllabification_def new_self_def epenthesis_def liquidae_def
  makeExceptions_def caparros_def latin_def latin_applies_def latin_mark_def flexiones_def
  diphthongi_def dictionarium_def longa_def accent_first_def latin_stress_eq
  this_syllabify_def strip_non_word_def is_word_char_def codePoint_def foreignLig_def
  foreignLig_table_def isHigh_def isLow_def trim_def isWhiteSpace_def
  join_def no_vowel_def base_vowels_def indivisibleOnset_def indivisibleCoda_def
  sonority_pair_def append_last_def
  split.simps diphthongPattern_def hstar_def Opt_def digraph_def remove_gq_def
  stressedSyllable_def hasAcute_def acutes_def
  asc_def startsWith_def endsWith_def slice_def slice_from_def rel_index_def
  at_list_def at_str_def toString_def deref_def wordBoundary_def isWordChar_def
  latin1_def latin1_letter_or_number_def latin1_lower_def Let_def
  substituted_def latin_fires_def segmented_text_def normalize_def remove_sentinel_def











section \<open>The stress range and the Latin gate\<close>

lemma sol_level_1:
  "syllabify latin1 [] (asc ''sol'') 1 False False False False = Inr [asc ''sol'']"
  "tonica latin1 [] (asc ''sol'') 1 False False False False = Inr (- 1)"
  by (simp_all add: eval_defs)

text \<open>The word \<open>sol\<close>: one syllable, stress \<open>-1\<close>.\<close>

theorem stress_index_range_witness:
  "syllabify latin1 [] (asc ''sol'') 1 False False False False = Inr [asc ''sol''] \<and>
   tonica latin1 [] (asc ''sol'') 1 False False False False = Inr (- 1)"
  using stress_index_range [of latin1 "[]" "asc ''sol''" 1 False False False False]
  by (simp add: sol_level_1)

text \<open>
  C2 as stated fails on the empty word: there are \<open>N = 0\<close> syllables and the stress is
  \<open>-1\<close>, which is below \<open>-N\<close>.
\<close>

theorem stress_index_range_counterexample:
  "syllabify latin1 [] [] 1 False False False False = Inr [] \<and>
   tonica latin1 [] [] 1 False False False False = Inr (- 1) \<and>
   \<not> (- int (length ([] :: jstring list)) \<le> (- 1 :: int))"
  by (simp add: eval_defs)

text \<open>
  C3, amended. At a level of \<open>0\<close> or below, neither the exception substitutions nor the
  Latin rules are applied: the word, after the optional epenthesis, is segmented as it
  is. At a level above \<open>0\<close> the Latin rules are applied after the exception
  substitutions: when the substituted word, lower-cased, ends in one of the endings and
  has no acute accent, the syllables are the segmentation of the marked word with the
  Latin accent written in.
\<close>

theorem latin_only_above_level_0:
  "(exceptions \<le> 0 \<longrightarrow>
      syllabify rt EXCEPTIONS_LIST word exceptions ipa h epen tl' =
      this_syllabify rt (new_self exceptions ipa h tl')
        (Str (if epen then epenthesis word else word))) \<and>
   (exceptions > 0 \<and> latin_applies rt (substituted EXCEPTIONS_LIST word exceptions epen) \<longrightarrow>
      syllabify rt EXCEPTIONS_LIST word exceptions ipa h epen tl' =
      bind (this_syllabify rt (new_self exceptions ipa h tl')
              (Str (latin_mark rt (substituted EXCEPTIONS_LIST word exceptions epen))))
           latin_stress)"
proof -
  have t: "\<And>m :: error + jstring list.
    bind (bind m (\<lambda>syls. bind (stressedSyllable syls)
                   (\<lambda>str. Inr \<lparr>syllables = syls, stress = str\<rparr>)))
         (\<lambda>r. Inr (syllables r)) = m"
  proof -
    fix m :: "error + jstring list"
    show "bind (bind m (\<lambda>syls. bind (stressedSyllable syls)
                   (\<lambda>str. Inr \<lparr>syllables = syls, stress = str\<rparr>)))
         (\<lambda>r. Inr (syllables r)) = m"
    proof (cases m)
      case (Inl e)
      then show ?thesis by simp
    next
      case (Inr syls)
      obtain s where "stressedSyllable syls = Inr s" using stressedSyllable_total by blast
      with Inr show ?thesis by simp
    qed
  qed
  show ?thesis
    unfolding syllabify_def Syllabification_eq t
    by (simp add: segmented_text_def latin_fires_def substituted_def bind_return)
qed

lemma rosam_level_1:
  "syllabify latin1 [] (asc ''rosam'') 1 False False False False =
     Inr [asc ''r'' @ [0xF3] @ asc ''s'', asc ''am'']"
  by (simp add: eval_defs)

lemma rosam_level_0:
  "syllabify latin1 [] (asc ''rosam'') 0 False False False False =
     Inr [asc ''ro'', asc ''sam'']"
  by (simp add: eval_defs)

lemma rosam_applies: "latin_applies latin1 (asc ''rosam'')"
  by (simp add: latin_applies_def latin1_def latin1_lower_def flexiones_def asc_def
        endsWith_def startsWith_def Let_def)

text \<open>
  The word \<open>rosam\<close>: at level \<open>1\<close> the Latin rules apply; at level \<open>0\<close> it is segmented
  as it is.
\<close>

theorem latin_only_above_level_0_witness:
  "(0 :: int) < 1 \<and>
   latin_applies latin1 (substituted [] (asc ''rosam'') 1 False) \<and>
   syllabify latin1 [] (asc ''rosam'') 1 False False False False =
     Inr [asc ''r'' @ [0xF3] @ asc ''s'', asc ''am''] \<and>
   (0 :: int) \<le> 0 \<and>
   syllabify latin1 [] (asc ''rosam'') 0 False False False False =
     this_syllabify latin1 (new_self 0 False False False) (Str (asc ''rosam''))"
  using latin_only_above_level_0 [of 1 latin1 "[]" "asc ''rosam''" False False False False]
    latin_only_above_level_0 [of 0 latin1 "[]" "asc ''rosam''" False False False False]
    rosam_level_1 rosam_applies
  by (simp add: substituted_def makeExceptions_def new_self_def caparros_def startsWith_def
        asc_def Let_def)

text \<open>
  C3 as stated fails at level \<open>0\<close>: \<open>rosam\<close> ends in \<open>am\<close> and has no accent, and its
  syllables are \<open>ro\<close>, \<open>sam\<close>, without the forced break and the accent that level \<open>1\<close>
  gives.
\<close>

theorem latin_only_above_level_0_counterexample:
  "latin_applies latin1 (asc ''rosam'') \<and>
   syllabify latin1 [] (asc ''rosam'') 0 False False False False =
     Inr [asc ''ro'', asc ''sam''] \<and>
   syllabify latin1 [] (asc ''rosam'') 1 False False False False =
     Inr [asc ''r'' @ [0xF3] @ asc ''s'', asc ''am'']"
  by (intro conjI) (rule rosam_applies, rule rosam_level_0, rule rosam_level_1)

section \<open>The Latin accent, the hiatus prefixes and the level\<close>

lemma endsWith_single: "endsWith s [c] \<longleftrightarrow> s \<noteq> [] \<and> last s = c"
proof (cases s rule: rev_cases)
  case Nil
  then show ?thesis by (simp add: endsWith_def)
next
  case (snoc xs x)
  then show ?thesis by (auto simp: endsWith_def)
qed

lemma longa_long_syllable: "longa s = long_syllable s"
proof -
  have "length (filter (\<lambda>x. str_includes s x) (map fst dictionarium)) =
        length (filter (\<lambda>v. v \<in> set s) (asc ''aeiou''))"
    by (simp add: dictionarium_def asc_def str_includes_single)
  moreover have "list_ex (\<lambda>x. endsWith s x) (map fst dictionarium) =
        (s \<noteq> [] \<and> last s \<in> set (asc ''aeiou''))"
    by (auto simp: dictionarium_def asc_def endsWith_single)
  moreover have "list_ex (\<lambda>dipht. str_includes s dipht) (map snd diphthongi) =
        (0xE6 \<in> set s \<or> 0x153 \<in> set s)"
    by (simp add: diphthongi_def str_includes_single)
  moreover have "\<And>n :: nat. (1 < n) = (2 \<le> n)" by arith
  ultimately show ?thesis
    unfolding longa_def long_syllable_def by simp
qed

lemma accent_first_by_table: "accent_first s = accent_by_table s"
  by (simp add: accent_first_def accent_by_table_def dictionarium_def asc_def str_includes_single)

text \<open>
  C4, amended. On a provisional segmentation of more than two syllables: when the
  penultimate syllable is long (it contains a ligature, or two or more distinct plain
  vowel letters, or does not end in a plain vowel letter), the accent is written into the
  penultimate syllable; when it is not, and the antepenultimate syllable is long by the
  same test, the accent is written into the antepenultimate syllable. The accent replaces
  the first occurrence of the first letter of \<open>a\<close>, \<open>e\<close>, \<open>i\<close>, \<open>o\<close>, \<open>u\<close>, in this order,
  that the chosen syllable contains; a syllable with none of them stays as it is.
\<close>

theorem latin_accent_placement:
  assumes "2 < length syls"
  shows "(long_syllable (syls ! (length syls - 2)) \<longrightarrow>
            latin_stress syls =
            Inr (syls[length syls - 2 := accent_by_table (syls ! (length syls - 2))])) \<and>
         (\<not> long_syllable (syls ! (length syls - 2)) \<and> long_syllable (syls ! (length syls - 3)) \<longrightarrow>
            latin_stress syls =
            Inr (syls[length syls - 3 := accent_by_table (syls ! (length syls - 3))]))"
  using assms
  by (simp add: latin_stress_eq longa_long_syllable accent_first_by_table)

text \<open>The segmentations of \<open>dominum\<close> and of \<open>gaudeat\<close>.\<close>

theorem latin_accent_placement_witness:
  "2 < length [asc ''do'', asc ''min'', asc ''um''] \<and>
   long_syllable (asc ''min'') \<and>
   latin_stress [asc ''do'', asc ''min'', asc ''um''] =
     Inr [asc ''do'', asc ''m'' @ [0xED] @ asc ''n'', asc ''um''] \<and>
   2 < length [asc ''gau'', asc ''de'', asc ''at''] \<and>
   \<not> long_syllable (asc ''de'') \<and> long_syllable (asc ''gau'') \<and>
   latin_stress [asc ''gau'', asc ''de'', asc ''at''] =
     Inr [asc ''g'' @ [0xE1] @ asc ''u'', asc ''de'', asc ''at'']"
  using latin_accent_placement [of "[asc ''do'', asc ''min'', asc ''um'']"]
    latin_accent_placement [of "[asc ''gau'', asc ''de'', asc ''at'']"]
  by (simp add: long_syllable_def accent_by_table_def asc_def startsWith_def)

lemma habeat_level_1:
  "syllabify latin1 [] (asc ''habeat'') 1 False False False False =
   Inr [asc ''ha'', asc ''be'', asc ''at'']"
  by (simp add: eval_defs)

text \<open>
  C4 as stated fails on \<open>habeat\<close>: the Latin rules apply, there are three syllables, the
  penultimate \<open>be\<close> is not long, and the antepenultimate \<open>ha\<close> gets no accent.
\<close>

theorem latin_accent_placement_counterexample:
  "latin_fires latin1 [] (asc ''habeat'') 1 False \<and>
   segmented_text latin1 [] (asc ''habeat'') 1 False = asc ''habe_at'' \<and>
   \<not> long_syllable (asc ''be'') \<and>
   syllabify latin1 [] (asc ''habeat'') 1 False False False False =
     Inr [asc ''ha'', asc ''be'', asc ''at'']"
  using habeat_level_1
  by (simp add: long_syllable_def segmented_text_def latin_fires_def substituted_def
        latin_applies_def latin_mark_def makeExceptions_def new_self_def flexiones_def
        diphthongi_def latin1_def latin1_lower_def asc_def endsWith_def startsWith_def
        wordBoundary_def isWordChar_def at_list_def Let_def)

lemma epenthesis_not_s: "c \<noteq> 0x73 \<Longrightarrow> epenthesis (c # w) = c # w"
  by (simp add: epenthesis_def liquidae_def startsWith_def asc_def)

lemma epenthesis_su: "epenthesis (0x73 # 0x75 # w) = 0x73 # 0x75 # w"
  by (simp add: epenthesis_def liquidae_def startsWith_def asc_def)

lemma makeExceptions_fie:
  "this_hiatus this \<Longrightarrow> makeExceptions EXC this (0x66 # 0x69 # 0x65 # rest) =
     fold (\<lambda>rule w. rule w) EXC (0x66 # 0x69 # 0x5F # 0x65 # rest)"
  by (simp add: makeExceptions_def caparros_def startsWith_def asc_def
          slice_def rel_index_def Let_def)

lemma makeExceptions_sua:
  "this_hiatus this \<Longrightarrow> makeExceptions EXC this (0x73 # 0x75 # 0x61 # rest) =
     fold (\<lambda>rule w. rule w) EXC (0x73 # 0x75 # 0x5F # 0x61 # rest)"
  by (simp add: makeExceptions_def caparros_def startsWith_def asc_def
          slice_def rel_index_def Let_def)

lemma makeExceptions_rui:
  "this_hiatus this \<Longrightarrow> makeExceptions EXC this (0x72 # 0x75 # 0x69 # rest) =
     fold (\<lambda>rule w. rule w) EXC (0x72 # 0x75 # 0x5F # 0x69 # rest)"
  by (simp add: makeExceptions_def caparros_def startsWith_def asc_def
          slice_def rel_index_def Let_def)

lemma startsWith_3: "startsWith w [a, b, c] \<Longrightarrow> \<exists>rest. w = a # b # c # rest"
proof -
  assume "startsWith w [a, b, c]"
  then have "take 3 w = [a, b, c]" by (simp add: startsWith_def eval_nat_numeral)
  then have "w = [a, b, c] @ drop 3 w" by (metis append_take_drop_id)
  then show ?thesis by auto
qed

text \<open>
  C5, amended. For every word that begins with \<open>fie\<close>, \<open>sua\<close> or \<open>rui\<close>, at level \<open>2\<close>
  and with or without epenthesis, the sentinel is inserted after the second letter of the
  prefix (between its two vowels), and the exception substitutions of the table are
  applied to the result.
\<close>

theorem hiatus_prefix_sentinel:
  assumes "startsWith word (asc ''fie'') \<or> startsWith word (asc ''sua'') \<or>
           startsWith word (asc ''rui'')"
  shows "substituted EXCEPTIONS_LIST word 2 epen =
         fold (\<lambda>rule w. rule w) EXCEPTIONS_LIST (take 2 word @ asc ''_'' @ drop 2 word)"
proof -
  have hi: "this_hiatus (new_self 2 False False False)" by (simp add: new_self_def)
  from assms consider
      (fie) rest where "word = 0x66 # 0x69 # 0x65 # rest"
    | (sua) rest where "word = 0x73 # 0x75 # 0x61 # rest"
    | (rui) rest where "word = 0x72 # 0x75 # 0x69 # rest"
    using startsWith_3 [of word "0x66" "0x69" "0x65"] startsWith_3 [of word "0x73" "0x75" "0x61"]
      startsWith_3 [of word "0x72" "0x75" "0x69"]
    by (auto simp: asc_def)
  then show ?thesis
  proof cases
    case fie
    show ?thesis
      unfolding fie substituted_def
      by (simp add: epenthesis_not_s makeExceptions_fie [OF hi] asc_def)
  next
    case sua
    show ?thesis
      unfolding sua substituted_def
      by (simp add: epenthesis_su makeExceptions_sua [OF hi] asc_def)
  next
    case rui
    show ?thesis
      unfolding rui substituted_def
      by (simp add: epenthesis_not_s makeExceptions_rui [OF hi] asc_def)
  qed
qed

text \<open>The word \<open>fiera\<close> with an empty exception table.\<close>

theorem hiatus_prefix_sentinel_witness:
  "startsWith (asc ''fiera'') (asc ''fie'') \<and>
   substituted [] (asc ''fiera'') 2 False = asc ''fi_era''"
  using hiatus_prefix_sentinel [of "asc ''fiera''" "[]" False]
  by (simp add: startsWith_def asc_def)

text \<open>C5 as stated fails on \<open>fiera\<close>: the result is \<open>fi_era\<close>, not \<open>f_iera\<close>.\<close>

theorem hiatus_prefix_sentinel_counterexample:
  "startsWith (asc ''fiera'') (asc ''fie'') \<and>
   substituted [] (asc ''fiera'') 2 False = asc ''fi_era'' \<and>
   asc ''fi_era'' \<noteq> asc ''f_iera''"
  by (simp add: substituted_def makeExceptions_def new_self_def caparros_def startsWith_def
        asc_def slice_def rel_index_def Let_def)

text \<open>
  C8, amended. The constructor validates nothing: for every integer level it returns a
  result; a level above \<open>1\<close> is processed as level \<open>2\<close>, a level of \<open>0\<close> or below as
  level \<open>0\<close>. Only the static type \<open>ExceptionLevel\<close> excludes the other values.
\<close>

theorem level_not_validated:
  "(\<exists>r. Syllabification rt EXCEPTIONS_LIST word exceptions ipa h epen tl' = Inr r) \<and>
   (1 < exceptions \<longrightarrow>
      Syllabification rt EXCEPTIONS_LIST word exceptions ipa h epen tl' =
      Syllabification rt EXCEPTIONS_LIST word 2 ipa h epen tl') \<and>
   (exceptions \<le> 0 \<longrightarrow>
      Syllabification rt EXCEPTIONS_LIST word exceptions ipa h epen tl' =
      Syllabification rt EXCEPTIONS_LIST word 0 ipa h epen tl')"
proof -
  from Syllabification_yields [of rt exceptions ipa h tl' EXCEPTIONS_LIST word epen]
  have "\<exists>r. Syllabification rt EXCEPTIONS_LIST word exceptions ipa h epen tl' = Inr r"
    by blast
  then show ?thesis
    by (simp add: Syllabification_def new_self_def)
qed

text \<open>The levels \<open>3\<close> and \<open>-1\<close>.\<close>

theorem level_not_validated_witness:
  "(1 :: int) < 3 \<and>
   Syllabification latin1 [] (asc ''sol'') 3 False False False False =
   Syllabification latin1 [] (asc ''sol'') 2 False False False False \<and>
   (- 1 :: int) \<le> 0 \<and>
   Syllabification latin1 [] (asc ''sol'') (- 1) False False False False =
   Syllabification latin1 [] (asc ''sol'') 0 False False False False"
  using level_not_validated [of latin1 "[]" "asc ''sol''" 3 False False False False]
    level_not_validated [of latin1 "[]" "asc ''sol''" "- 1" False False False False]
  by simp

text \<open>C8 as stated fails at level \<open>3\<close>: the construction returns a result.\<close>

theorem level_not_validated_counterexample:
  "Syllabification latin1 [] (asc ''sol'') 3 False False False False =
   Inr \<lparr>syllables = [asc ''sol''], stress = - 1\<rparr>"
  by (simp add: eval_defs)

section \<open>Words without letters\<close>

lemma latin1_letter_or_number_iff:
  "latin1_letter_or_number c \<longleftrightarrow> latin1_letter c \<or> latin1_number c"
  unfolding latin1_letter_or_number_def latin1_letter_def latin1_number_def by auto

lemma single_in_arrayFrom:
  "c \<in> set w \<Longrightarrow> \<not> isHigh c \<Longrightarrow> \<not> isLow c \<Longrightarrow> [c] \<in> set (arrayFrom w)"
  by (induction w rule: arrayFrom.induct) (auto split: if_splits)

lemma no_letters_ascii:
  assumes "knows_ascii rt" and "no_letters rt w" and "c \<in> set w"
  shows "\<not> (0x61 \<le> c \<and> c \<le> 0x7A)"
proof
  assume c: "0x61 \<le> c \<and> c \<le> 0x7A"
  then have "\<not> isHigh c" "\<not> isLow c" by (simp_all add: isHigh_def isLow_def)
  from single_in_arrayFrom [OF assms(3) this] assms(2)
  have "\<not> isLetterOrNumber rt (codePoint [c])" by (auto simp: no_letters_def)
  with assms(1) c show False by (simp add: knows_ascii_def codePoint_def)
qed

lemma startsWith_hd: "startsWith w (c # p) \<Longrightarrow> c \<in> set w"
  by (cases w) (auto simp: startsWith_def)

lemma endsWith_last: "endsWith w p \<Longrightarrow> p \<noteq> [] \<Longrightarrow> last p \<in> set w"
proof -
  assume e: "endsWith w p" and p: "p \<noteq> []"
  then have "set p \<subseteq> set w" unfolding endsWith_def by (metis set_drop_subset)
  with p show ?thesis using last_in_set by blast
qed

lemma no_ascii_epenthesis:
  assumes "\<forall>c\<in>set w. \<not> (0x61 \<le> c \<and> c \<le> 0x7A)"
  shows "epenthesis w = w"
proof -
  have "find (\<lambda>onset. startsWith w onset) liquidae = None"
  proof (rule ccontr)
    assume "find (\<lambda>onset. startsWith w onset) liquidae \<noteq> None"
    then obtain onset where "onset \<in> set liquidae" "startsWith w onset"
      by (auto simp: find_None_iff)
    then obtain p where "startsWith w (0x73 # p)"
      by (auto simp: liquidae_def asc_def)
    from startsWith_hd [OF this] assms show False by auto
  qed
  then show ?thesis by (simp add: epenthesis_def)
qed

lemma no_ascii_makeExceptions:
  assumes "\<forall>c\<in>set w. \<not> (0x61 \<le> c \<and> c \<le> 0x7A)"
  shows "makeExceptions EXC this w = fold (\<lambda>rule w. rule w) EXC w"
proof -
  have "\<not> list_ex (\<lambda>x. startsWith w x) (map fst caparros)"
  proof
    assume "list_ex (\<lambda>x. startsWith w x) (map fst caparros)"
    then consider p where "startsWith w (0x66 # p)" | p where "startsWith w (0x73 # p)"
      | p where "startsWith w (0x72 # p)"
      by (auto simp: caparros_def asc_def)
    then show False
    proof cases
      case 1 from startsWith_hd [OF this] assms show False by auto
    next
      case 2 from startsWith_hd [OF this] assms show False by auto
    next
      case 3 from startsWith_hd [OF this] assms show False by auto
    qed
  qed
  then show ?thesis by (simp add: makeExceptions_def)
qed

lemma fold_rules_no_letters:
  assumes "\<forall>rule\<in>set EXC. \<forall>w. no_letters rt w \<longrightarrow> no_letters rt (rule w)"
    and "no_letters rt w"
  shows "no_letters rt (fold (\<lambda>rule w. rule w) EXC w)"
  using assms by (induction EXC arbitrary: w) simp_all

lemma no_ascii_latin:
  assumes "\<forall>c\<in>set (toLowerCase rt w). \<not> (0x61 \<le> c \<and> c \<le> 0x7A)"
  shows "\<not> latin_applies rt w"
proof
  assume "latin_applies rt w"
  then obtain f where f: "f \<in> set flexiones" "endsWith (toLowerCase rt w) f"
    by (auto simp: latin_applies_def Let_def list_ex_iff)
  from f(1) have "f \<noteq> []" "0x61 \<le> last f \<and> last f \<le> 0x7A"
    by (auto simp: flexiones_def asc_def)
  with endsWith_last [OF f(2)] assms show False by blast
qed

lemma strip_no_letters:
  assumes "no_letters rt w"
  shows "set (strip_non_word rt w) \<subseteq> {0x5F}"
  using assms by (auto simp: strip_non_word_def no_letters_def is_word_char_def asc_def)

lemma foreignLig_sentinel_only: "set x \<subseteq> {0x5F} \<Longrightarrow> foreignLig x = x"
proof (cases "map_of foreignLig_table x")
  case None
  then show ?thesis by (simp add: foreignLig_def)
next
  case (Some v)
  assume x: "set x \<subseteq> {0x5F}"
  from map_of_SomeD [OF Some] have "x \<in> fst ` set foreignLig_table" by force
  then have "\<exists>c. c \<in> set x \<and> c \<noteq> 0x5F"
    unfolding foreignLig_table_def by auto
  with x show ?thesis by blast
qed

lemma fold_sentinel_only:
  assumes "set w \<subseteq> {0x5F}"
  shows "concat (map foreignLig (arrayFrom w)) = w"
proof -
  have "\<forall>x\<in>set (arrayFrom w). foreignLig x = x"
    using arrayFrom_subset [of _ w] assms foreignLig_sentinel_only by blast
  then have "map foreignLig (arrayFrom w) = arrayFrom w" by (simp add: map_idI)
  then show ?thesis by (simp add: concat_arrayFrom)
qed

lemma split_sentinel_only:
  assumes "close_ok this" and "set w \<subseteq> {0x5F}"
  shows "list_all (\<lambda>s. s = asc ''_'') (split this w [])"
proof -
  from split_segments [OF assms(1), of "[]" w] have ok: "list_all segment_ok (split this w [])"
    by simp
  from split_concat [OF assms(1), of w "[]"] have c: "concat (split this w []) = w" by simp
  show ?thesis
    unfolding list_all_iff
  proof
    fix s assume s: "s \<in> set (split this w [])"
    then have "set s \<subseteq> set (concat (split this w []))" by auto
    with c assms(2) have "set s \<subseteq> {0x5F}" by simp
    moreover from ok s have "segment_ok s" by (simp add: list_all_iff)
    ultimately show "s = asc ''_''"
      unfolding segment_ok_def by (cases s) auto
  qed
qed

lemma join_loop_sentinels:
  "list_all (\<lambda>s. s = asc ''_'') segs \<Longrightarrow>
   join_loop rt this ([], [], m) segs = Inr ([], [], m)"
  by (induction segs) simp_all

lemma join_sentinels:
  "list_all (\<lambda>s. s = asc ''_'') segs \<Longrightarrow> join rt this segs = Inr []"
  by (simp add: join_def join_loop_sentinels)

lemma this_syllabify_no_letters:
  assumes "close_ok this" and "no_letters rt w"
  shows "this_syllabify rt this (Str w) = Inr []"
proof -
  let ?w1 = "strip_non_word rt w"
  from strip_no_letters [OF assms(2)] have s: "set ?w1 \<subseteq> {0x5F}" .
  from fold_sentinel_only [OF s] have f: "concat (map foreignLig (arrayFrom ?w1)) = ?w1" .
  from join_sentinels [OF split_sentinel_only [OF assms(1) s]]
  have "join rt this (split this ?w1 []) = Inr []" .
  then show ?thesis by (simp add: this_syllabify_def Let_def f)
qed

text \<open>
  C9, amended. For every string without a letter and without a number, every level and
  all flags, \<open>syllabify\<close> returns the empty sequence and \<open>tonica\<close> returns \<open>-1\<close>, both
  as normal results. This rests on three facts about what is not in the sources: the
  runtime counts the lower-case letters of ASCII as letters, \<open>toLowerCase\<close> makes no
  letter or number out of a string without them, and neither does a rule of the
  exception table.
\<close>

theorem no_letters_no_syllables:
  assumes "knows_ascii rt"
    and "\<forall>w. no_letters rt w \<longrightarrow> no_letters rt (toLowerCase rt w)"
    and "\<forall>rule\<in>set EXCEPTIONS_LIST. \<forall>w. no_letters rt w \<longrightarrow> no_letters rt (rule w)"
    and "no_letters rt word"
  shows "syllabify rt EXCEPTIONS_LIST word exceptions ipa h epen tl' = Inr [] \<and>
         tonica rt EXCEPTIONS_LIST word exceptions ipa h epen tl' = Inr (- 1)"
proof -
  from no_letters_ascii [OF assms(1,4)]
  have a: "\<forall>c\<in>set word. \<not> (0x61 \<le> c \<and> c \<le> 0x7A)" by blast
  have S: "substituted EXCEPTIONS_LIST word exceptions epen =
        (if exceptions > 0 then fold (\<lambda>rule w. rule w) EXCEPTIONS_LIST word else word)"
    by (simp add: substituted_def no_ascii_epenthesis [OF a] no_ascii_makeExceptions [OF a])
  have nl: "no_letters rt (substituted EXCEPTIONS_LIST word exceptions epen)"
    unfolding S using fold_rules_no_letters [OF assms(3,4)] assms(4) by simp
  with assms(2) have "no_letters rt (toLowerCase rt (substituted EXCEPTIONS_LIST word exceptions epen))"
    by blast
  from no_letters_ascii [OF assms(1) this]
  have "\<not> latin_applies rt (substituted EXCEPTIONS_LIST word exceptions epen)"
    by (intro no_ascii_latin) blast
  then have nf: "\<not> latin_fires rt EXCEPTIONS_LIST word exceptions epen"
    and T: "segmented_text rt EXCEPTIONS_LIST word exceptions epen =
            substituted EXCEPTIONS_LIST word exceptions epen"
    by (simp_all add: latin_fires_def segmented_text_def)
  from this_syllabify_no_letters [OF close_ok_new_self nl]
  have "Syllabification rt EXCEPTIONS_LIST word exceptions ipa h epen tl' =
        Inr \<lparr>syllables = [], stress = - 1\<rparr>"
    unfolding Syllabification_eq T by (simp add: nf stressedSyllable_short)
  then show ?thesis by (simp add: syllabify_def tonica_def)
qed

lemma latin1_knows_ascii: "knows_ascii latin1"
  by (simp add: knows_ascii_def latin1_def latin1_letter_or_number_def)

lemma latin1_lower_no_letters:
  assumes "no_letters latin1 w"
  shows "toLowerCase latin1 w = w"
proof -
  have "\<forall>c\<in>set w. latin1_lower c = c"
  proof
    fix c assume c: "c \<in> set w"
    show "latin1_lower c = c"
    proof (rule ccontr)
      assume "latin1_lower c \<noteq> c"
      then have u: "(0x41 \<le> c \<and> c \<le> 0x5A) \<or> (0xC0 \<le> c \<and> c \<le> 0xDE \<and> c \<noteq> 0xD7)"
        by (simp add: latin1_lower_def split: if_splits)
      then have "\<not> isHigh c" "\<not> isLow c" by (auto simp: isHigh_def isLow_def)
      from single_in_arrayFrom [OF c this] assms
      have "\<not> latin1_letter_or_number c"
        by (auto simp: no_letters_def latin1_def codePoint_def)
      with u show False by (auto simp: latin1_letter_or_number_def)
    qed
  qed
  then show ?thesis by (simp add: latin1_def map_idI)
qed

lemma punctuation_no_letters: "no_letters latin1 (asc ''_!'')"
  by (simp add: no_letters_def asc_def isHigh_def isLow_def codePoint_def latin1_def
        latin1_letter_or_number_def)

text \<open>The string \<open>_!\<close> with an empty exception table.\<close>

theorem no_letters_no_syllables_witness:
  "knows_ascii latin1 \<and> no_letters latin1 (asc ''_!'') \<and>
   syllabify latin1 [] (asc ''_!'') 1 False False False False = Inr [] \<and>
   tonica latin1 [] (asc ''_!'') 1 False False False False = Inr (- 1)"
proof -
  have l: "\<forall>w. no_letters latin1 w \<longrightarrow> no_letters latin1 (toLowerCase latin1 w)"
    by (simp add: latin1_lower_no_letters)
  have r: "\<forall>rule\<in>set []. \<forall>w. no_letters latin1 w \<longrightarrow> no_letters latin1 (rule w)"
    by simp
  from no_letters_no_syllables [OF latin1_knows_ascii l r punctuation_no_letters]
    latin1_knows_ascii punctuation_no_letters
  show ?thesis by simp
qed

lemma digit_level_1:
  "syllabify latin1 [] [0x31] 1 False False False False = Inr [[0x31]]"
  by (simp add: eval_defs)

text \<open>
  C9 as stated fails on the string \<open>1\<close>: it contains no letter, and \<open>syllabify\<close> returns
  the one syllable \<open>1\<close>.
\<close>

theorem no_letters_no_syllables_counterexample:
  "\<not> latin1_letter 0x31 \<and>
   syllabify latin1 [] [0x31] 1 False False False False = Inr [[0x31]]"
  using digit_level_1 by (simp add: latin1_letter_def)

end
